theory Spec2Isabelle
  imports Complex_Main "HOL-Library.Word" "HOL-Library.Log_Nat" "HOL-Library.Multiset"
begin

section \<open>JavaScript strings\<close>

text \<open>
  A JavaScript string is a sequence of UTF-16 code units. \<open>split('')\<close>, the character
  classes of a regular expression without the \<open>u\<close> flag and \<open>trim\<close> all work on code
  units, so a string is a list of 16-bit words. \<open>js_str\<close> writes an ASCII literal.
\<close>

type_synonym code_unit = "16 word"
type_synonym js_string = "code_unit list"

definition js_str :: "string \<Rightarrow> js_string" where
  "js_str s = map (\<lambda>c. of_nat (of_char c)) s"

text \<open>\<open>\d\<close>: the ten ASCII digits.\<close>

definition is_digit :: "code_unit \<Rightarrow> bool" where
  "is_digit c \<longleftrightarrow> 0x30 \<le> c \<and> c \<le> 0x39"

text \<open>
  \<open>\s\<close> and the characters removed by \<open>String.prototype.trim\<close>: ECMAScript's WhiteSpace
  (TAB, VT, FF, ZWNBSP and the Unicode space separators) and LineTerminator
  (LF, CR, LS, PS) productions.
\<close>

definition is_ws :: "code_unit \<Rightarrow> bool" where
  "is_ws c \<longleftrightarrow>
     c = 0x09 \<or> c = 0x0A \<or> c = 0x0B \<or> c = 0x0C \<or> c = 0x0D \<or> c = 0x20 \<or> c = 0xA0 \<or>
     c = 0x1680 \<or> (0x2000 \<le> c \<and> c \<le> 0x200A) \<or> c = 0x2028 \<or> c = 0x2029 \<or>
     c = 0x202F \<or> c = 0x205F \<or> c = 0x3000 \<or> c = 0xFEFF"

text \<open>\<open>s.split('\n')\<close>: the pieces between the separators; the empty string gives \<open>['']\<close>.\<close>

fun split_on :: "code_unit \<Rightarrow> js_string \<Rightarrow> js_string list" where
  "split_on sep [] = [[]]"
| "split_on sep (c # cs) =
     (if c = sep then [] # split_on sep cs
      else (c # hd (split_on sep cs)) # tl (split_on sep cs))"

text \<open>\<open>s.split('')\<close>: one string per code unit.\<close>

definition split_chars :: "js_string \<Rightarrow> js_string list" where
  "split_chars s = map (\<lambda>c. [c]) s"

text \<open>
  \<open>s.split(/\s+/)\<close>: a run of whitespace ends the current piece, also an empty one at
  the start of the string, and the rest of the string after the last run is the last piece.
\<close>

function split_ws :: "js_string \<Rightarrow> js_string list" where
  "split_ws [] = [[]]"
| "split_ws (c # cs) =
     (if is_ws c then [] # split_ws (dropWhile is_ws cs)
      else (c # hd (split_ws cs)) # tl (split_ws cs))"
  by pat_completeness auto
termination
  by (relation "measure length") (auto simp: length_dropWhile_le less_Suc_eq_le)

definition trim :: "js_string \<Rightarrow> js_string" where
  "trim s = rev (dropWhile is_ws (rev (dropWhile is_ws s)))"

definition padEnd :: "nat \<Rightarrow> code_unit \<Rightarrow> js_string \<Rightarrow> js_string" where
  "padEnd n c s = s @ replicate (n - length s) c"

section \<open>JavaScript numbers\<close>

text \<open>
  A Number is an IEEE 754 double. The finite doubles are rationals, and every arithmetic
  operation returns the exact result rounded to the nearest double, ties to the even
  significand. \<open>to_double\<close> is that rounding, subnormals included. The times of this
  program lie between 0 and 6041 (lemma \<open>match_time_bounds\<close>), so overflow to Infinity
  does not arise and is not modelled.
\<close>

definition pow2 :: "int \<Rightarrow> rat" where
  "pow2 e = (if 0 \<le> e then 2 ^ nat e else 1 / 2 ^ nat (- e))"

text \<open>\<open>ilog2 x\<close> is the exponent \<open>e\<close> with \<open>2^e \<le> x < 2^(e+1)\<close>, for positive \<open>x\<close>.\<close>

definition ilog2 :: "rat \<Rightarrow> int" where
  "ilog2 x = (let (p, q) = quotient_of x; c = bitlen p - bitlen q
              in if pow2 c \<le> x then c else c - 1)"

definition round_half_even :: "rat \<Rightarrow> int" where
  "round_half_even y =
     (let f = \<lfloor>y\<rfloor>; d = y - of_int f
      in if d < 1 / 2 then f else if 1 / 2 < d then f + 1
         else if even f then f else f + 1)"

definition to_double :: "rat \<Rightarrow> rat" where
  "to_double x =
     (if x = 0 then 0
      else let e = max (ilog2 \<bar>x\<bar>) (- 1022); q = pow2 (e - 52)
           in of_int (round_half_even (x / q)) * q)"

definition js_add :: "rat \<Rightarrow> rat \<Rightarrow> rat" where
  "js_add a b = to_double (a + b)"

definition js_sub :: "rat \<Rightarrow> rat \<Rightarrow> rat" where
  "js_sub a b = to_double (a - b)"

definition js_mul :: "rat \<Rightarrow> rat \<Rightarrow> rat" where
  "js_mul a b = to_double (a * b)"

definition js_div :: "rat \<Rightarrow> rat \<Rightarrow> rat" where
  "js_div a b = to_double (a / b)"

text \<open>
  \<open>parseInt(s, 10)\<close> on a string that starts with decimal digits: the value of the
  longest prefix of digits. The parser calls it only on capture groups of \<open>\d\<close>
  (lemma \<open>timeRegex_exec_groups\<close>), so the NaN of a string with no leading digit, the
  skipped leading whitespace and the sign are not modelled.
\<close>

definition digit_val :: "code_unit \<Rightarrow> nat" where
  "digit_val c = unat c - 0x30"

definition parseInt10 :: "js_string \<Rightarrow> rat" where
  "parseInt10 s = to_double (of_nat (foldl (\<lambda>n c. 10 * n + digit_val c) 0 (takeWhile is_digit s)))"

section \<open>The timestamp pattern\<close>

text \<open>
  \<open>const timeRegex = /\[(\d{2}):(\d{2})(\.(\d{2,3}))?\]/\<close>.
  The matcher tries the alternatives of the pattern in the order of the backtracking
  engine: the optional group is tried before it is skipped, and \<open>\d{2,3}\<close> takes three
  digits before two.
\<close>

definition expect :: "code_unit \<Rightarrow> js_string \<Rightarrow> js_string option" where
  "expect c s = (case s of [] \<Rightarrow> None | x # r \<Rightarrow> if x = c then Some r else None)"

definition digits :: "nat \<Rightarrow> js_string \<Rightarrow> (js_string \<times> js_string) option" where
  "digits n s =
     (if n \<le> length s \<and> list_all is_digit (take n s) then Some (take n s, drop n s) else None)"

text \<open>\<open>\.(\d{n})\]\<close> at the start of \<open>r\<close>: capture group 4 and what follows the bracket.\<close>

definition fraction_close :: "nat \<Rightarrow> js_string \<Rightarrow> (js_string option \<times> js_string) option" where
  "fraction_close n r =
     Option.bind (expect 0x2E r) (\<lambda>r1.
     Option.bind (digits n r1) (\<lambda>(f, r2).
     Option.bind (expect 0x5D r2) (\<lambda>r3. Some (Some f, r3))))"

definition match_tail :: "js_string \<Rightarrow> (js_string option \<times> js_string) option" where
  "match_tail r =
     (case fraction_close 3 r of Some m \<Rightarrow> Some m
      | None \<Rightarrow>
        (case fraction_close 2 r of Some m \<Rightarrow> Some m
         | None \<Rightarrow> Option.bind (expect 0x5D r) (\<lambda>r3. Some (None, r3))))"

text \<open>The whole pattern at the start of \<open>s\<close>: groups 1, 2 and 4 and the length of the match.\<close>

definition match_here :: "js_string \<Rightarrow> (js_string \<times> js_string \<times> js_string option \<times> nat) option" where
  "match_here s =
     Option.bind (expect 0x5B s) (\<lambda>r1.
     Option.bind (digits 2 r1) (\<lambda>(mm, r2).
     Option.bind (expect 0x3A r2) (\<lambda>r3.
     Option.bind (digits 2 r3) (\<lambda>(ss, r4).
     Option.bind (match_tail r4) (\<lambda>(f, r5).
       Some (mm, ss, f, length s - length r5))))))"

record regex_match =
  index :: nat
  matched :: js_string
  group1 :: js_string
  group2 :: js_string
  group4 :: "js_string option"

text \<open>\<open>timeRegex.exec(line)\<close>: the leftmost position at which the pattern matches.\<close>

fun exec_from :: "nat \<Rightarrow> js_string \<Rightarrow> regex_match option" where
  "exec_from i [] = None"
| "exec_from i (c # cs) =
     (case match_here (c # cs) of
        Some (mm, ss, f, n) \<Rightarrow>
          Some \<lparr>index = i, matched = take n (c # cs), group1 = mm, group2 = ss, group4 = f\<rparr>
      | None \<Rightarrow> exec_from (Suc i) cs)"

definition timeRegex_exec :: "js_string \<Rightarrow> regex_match option" where
  "timeRegex_exec line = exec_from 0 line"

text \<open>\<open>line.replace(timeRegex, '')\<close>: the first match is cut out, the rest is kept.\<close>

definition replace_timeRegex :: "js_string \<Rightarrow> js_string" where
  "replace_timeRegex line =
     (case timeRegex_exec line of
        None \<Rightarrow> line
      | Some m \<Rightarrow> take (index m) line @ drop (index m + length (matched m)) line)"

section \<open>The parser\<close>

text \<open>
  The interface \<open>LyricLine\<close> of \<open>types.ts\<close>. Its field \<open>text\<close> is written
  \<open>text'\<close> here. The parser sets \<open>isJapanese\<close> on every line it emits.
\<close>

record LyricLine =
  time :: rat
  text' :: js_string
  words :: "js_string list"
  isJapanese :: bool

text \<open>
  \<open>Intl.Segmenter\<close> belongs to the runtime, and it may be absent. It is a parameter:
  \<open>None\<close> when \<open>typeof Intl !== 'undefined' && Intl.Segmenter\<close> is false, otherwise
  a function from the text to the segments, or to the value it throws.
\<close>

datatype js_error = Thrown js_string

record SegmentData =
  segment :: js_string
  isWordLike :: bool

type_synonym Segmenter = "js_string \<Rightarrow> js_error + SegmentData list"

text \<open>\<open>console.warn("Intl.Segmenter error", e)\<close> appends to the console.\<close>

datatype diagnostic = Warn js_string js_error

record parse_state =
  lyrics :: "LyricLine list"
  console :: "diagnostic list"

definition is_kana :: "code_unit \<Rightarrow> bool" where
  "is_kana c \<longleftrightarrow> (0x3040 \<le> c \<and> c \<le> 0x309F) \<or> (0x30A0 \<le> c \<and> c \<le> 0x30FF)"

definition is_cjk :: "code_unit \<Rightarrow> bool" where
  "is_cjk c \<longleftrightarrow> 0x4E00 \<le> c \<and> c \<le> 0x9FFF"

definition hasJapanese :: "js_string \<Rightarrow> bool" where
  "hasJapanese text = list_ex is_kana text"

definition hasChineseChars :: "js_string \<Rightarrow> bool" where
  "hasChineseChars text = list_ex is_cjk text"

definition isChinese :: "js_string \<Rightarrow> bool" where
  "isChinese text \<longleftrightarrow> hasChineseChars text \<and> \<not> hasJapanese text"

text \<open>
  \<open>Array.from(segments).filter(s => s.isWordLike).map(s => s.segment)\<close>, with what the
  segmenter throws passed on.
\<close>

definition segment_words :: "Segmenter \<Rightarrow> js_string \<Rightarrow> js_error + js_string list" where
  "segment_words segmenter text =
     (case segmenter text of
        Inl e \<Rightarrow> Inl e
      | Inr segments \<Rightarrow> Inr (map segment (filter isWordLike segments)))"

text \<open>
  The choice of the words of a line: the \<open>if (hasJapanese) ... else if (!isChinese) ...\<close>
  chain, with its \<open>try\<close> and \<open>catch\<close>. The result is the words and what the
  branch writes to the console.
\<close>

definition tokenize ::
  "Segmenter option \<Rightarrow> js_string \<Rightarrow> js_error + (js_string list \<times> diagnostic list)" where
  "tokenize intl text =
     (if hasJapanese text then
        (case intl of
           Some segmenter \<Rightarrow>
             (case segment_words segmenter text of
                Inr ws \<Rightarrow> Inr (ws, [])
              | Inl e \<Rightarrow> Inr (split_chars text, [Warn (js_str ''Intl.Segmenter error'') e]))
         | None \<Rightarrow> Inr (split_chars text, []))
      else if \<not> isChinese text then Inr (split_ws text, [])
      else Inr ([], []))"

text \<open>The time of a match: \<open>minute * 60 + second + millisecond / 1000\<close>.\<close>

definition match_time :: "regex_match \<Rightarrow> rat" where
  "match_time m =
     (let minute = parseInt10 (group1 m);
          second = parseInt10 (group2 m);
          millisecond = (case group4 m of
                           None \<Rightarrow> 0
                         | Some f \<Rightarrow> if f = [] then 0 else parseInt10 (padEnd 3 0x30 f))
      in js_add (js_add (js_mul minute 60) second) (js_div millisecond 1000))"

text \<open>The body of the loop over the lines.\<close>

definition parse_line :: "Segmenter option \<Rightarrow> js_string \<Rightarrow> parse_state \<Rightarrow> js_error + parse_state" where
  "parse_line intl line st =
     (case timeRegex_exec line of
        None \<Rightarrow> Inr st
      | Some m \<Rightarrow>
          (let text = trim (replace_timeRegex line)
           in if text = [] then Inr st
              else (case tokenize intl text of
                      Inl e \<Rightarrow> Inl e
                    | Inr (ws, warnings) \<Rightarrow>
                        Inr \<lparr>lyrics = lyrics st @
                               [\<lparr>time = match_time m, text' = text, words = ws,
                                 isJapanese = hasJapanese text\<rparr>],
                             console = console st @ warnings\<rparr>)))"

fun parse_lines :: "Segmenter option \<Rightarrow> js_string list \<Rightarrow> parse_state \<Rightarrow> js_error + parse_state" where
  "parse_lines intl [] st = Inr st"
| "parse_lines intl (line # rest) st =
     (case parse_line intl line st of
        Inl e \<Rightarrow> Inl e
      | Inr st' \<Rightarrow> parse_lines intl rest st')"

text \<open>
  \<open>lyrics.sort((a, b) => a.time - b.time)\<close>. The sort is the engine's; ECMAScript
  requires it to be stable, so it is an insertion sort that puts an element before the
  first one it does not come after. The comparator is the source's subtraction.
\<close>

definition compare_time :: "LyricLine \<Rightarrow> LyricLine \<Rightarrow> rat" where
  "compare_time a b = js_sub (time a) (time b)"

fun insert_by :: "('a \<Rightarrow> 'a \<Rightarrow> rat) \<Rightarrow> 'a \<Rightarrow> 'a list \<Rightarrow> 'a list" where
  "insert_by cmp x [] = [x]"
| "insert_by cmp x (y # ys) =
     (if cmp x y \<le> 0 then x # y # ys else y # insert_by cmp x ys)"

definition js_sort :: "('a \<Rightarrow> 'a \<Rightarrow> rat) \<Rightarrow> 'a list \<Rightarrow> 'a list" where
  "js_sort cmp xs = foldr (insert_by cmp) xs []"

definition parseLRC :: "Segmenter option \<Rightarrow> js_string \<Rightarrow> js_error + (LyricLine list \<times> diagnostic list)" where
  "parseLRC intl lrcContent =
     (case parse_lines intl (split_on 0x0A lrcContent) \<lparr>lyrics = [], console = []\<rparr> of
        Inl e \<Rightarrow> Inl e
      | Inr st \<Rightarrow> Inr (js_sort compare_time (lyrics st), console st))"

section \<open>Notions of the verification\<close>

text \<open>
  Every finite double is an integer multiple of the smallest subnormal, and so is every
  value of \<open>to_double\<close>: that is all the comparator of the sort needs to know.
\<close>

definition is_double :: "rat \<Rightarrow> bool" where
  "is_double x \<longleftrightarrow> (\<exists>k::int. x = of_int k * pow2 (- 1074))"

text \<open>What the parser returns for one line parsed alone, and nothing if it fails.\<close>

definition lines_of :: "js_error + (LyricLine list \<times> diagnostic list) \<Rightarrow> LyricLine list" where
  "lines_of r = (case r of Inl e \<Rightarrow> [] | Inr (ls, con) \<Rightarrow> ls)"

definition warnings_of :: "js_error + (LyricLine list \<times> diagnostic list) \<Rightarrow> diagnostic list" where
  "warnings_of r = (case r of Inl e \<Rightarrow> [] | Inr (ls, con) \<Rightarrow> con)"

text \<open>What the body of the loop adds to the lyrics and to the console for one line.\<close>

definition emit :: "Segmenter option \<Rightarrow> js_string \<Rightarrow> LyricLine list \<times> diagnostic list" where
  "emit intl line =
     (case parse_line intl line \<lparr>lyrics = [], console = []\<rparr> of
        Inl e \<Rightarrow> ([], [])
      | Inr st \<Rightarrow> (lyrics st, console st))"

text \<open>A string that is only whitespace; the empty string is one.\<close>

definition is_blank :: "js_string \<Rightarrow> bool" where
  "is_blank s = list_all is_ws s"

section \<open>Example runtimes\<close>

text \<open>A segmenter that throws on every text, and one that finds one word and a space.\<close>

definition throwing :: Segmenter where
  "throwing text = Inl (Thrown (js_str ''boom''))"

definition two_segments :: Segmenter where
  "two_segments text =
     Inr [\<lparr>segment = take 1 text, isWordLike = True\<rparr>, \<lparr>segment = drop 1 text, isWordLike = False\<rparr>]"

section \<open>Rounding to a double\<close>

lemma pow2_powi: "pow2 e = 2 powi e"
proof (cases "0 \<le> e")
  case True
  then show ?thesis by (simp add: pow2_def power_int_def)
next
  case False
  then show ?thesis by (simp add: pow2_def power_int_def inverse_eq_divide power_one_over)
qed

lemma pow2_pos: "0 < pow2 e"
  by (simp add: pow2_powi)

lemma pow2_add: "pow2 (a + b) = pow2 a * pow2 b"
  by (simp add: pow2_powi power_int_add)

lemma pow2_mono: "a \<le> b \<Longrightarrow> pow2 a \<le> pow2 b"
  by (simp add: pow2_powi power_int_increasing)

lemma ilog2_lower:
  assumes "0 < x"
  shows "pow2 (ilog2 x) \<le> x"
proof -
  obtain p q where pq: "quotient_of x = (p, q)" by (cases "quotient_of x")
  have q: "0 < q" using pq by (rule quotient_of_denom_pos)
  have x: "x = of_int p / of_int q" using pq by (rule quotient_of_div)
  have p: "0 < p" using assms q x by (simp add: zero_less_divide_iff)
  define c where "c = bitlen p - bitlen q"
  show ?thesis
  proof (cases "pow2 c \<le> x")
    case True
    then show ?thesis by (simp add: ilog2_def pq c_def)
  next
    case False
    have bp: "1 \<le> bitlen p" using p bitlen_eq_zero_iff [of p] bitlen_nonneg [of p] by linarith
    have "(2::int) ^ nat (bitlen p - 1) \<le> p" using bitlen_bounds [OF p] by simp
    then have "(of_int ((2::int) ^ nat (bitlen p - 1)) :: rat) \<le> of_int p" by (simp only: of_int_le_iff)
    then have lo: "pow2 (bitlen p - 1) \<le> of_int p" using bp by (simp add: pow2_def)
    have "q < 2 ^ nat (bitlen q)" using bitlen_bounds [OF q] by simp
    then have "(of_int q :: rat) < of_int ((2::int) ^ nat (bitlen q))" by (simp only: of_int_less_iff)
    then have hi: "of_int q < pow2 (bitlen q)" using bitlen_nonneg [of q] by (simp add: pow2_def)
    have "pow2 (c - 1) * pow2 (bitlen q) = pow2 (bitlen p - 1)"
      by (simp add: c_def flip: pow2_add)
    have "pow2 (c - 1) * of_int q \<le> pow2 (c - 1) * pow2 (bitlen q)"
      using hi pow2_pos [of "c - 1"] by (simp add: mult_left_mono)
    also have "\<dots> = pow2 (bitlen p - 1)" by (simp add: c_def flip: pow2_add)
    also have "\<dots> \<le> of_int p" by (rule lo)
    finally have "pow2 (c - 1) \<le> of_int p / of_int q" using q by (simp add: pos_le_divide_eq)
    then have "pow2 (c - 1) \<le> x" by (simp only: x)
    with False show ?thesis by (simp add: ilog2_def pq c_def)
  qed
qed

lemma round_half_even_nonpos: "y \<le> 0 \<Longrightarrow> round_half_even y \<le> 0"
proof -
  assume y: "y \<le> 0"
  then have f: "\<lfloor>y\<rfloor> \<le> 0" by (simp add: floor_le_zero)
  show ?thesis
  proof (cases "y = 0")
    case True
    then show ?thesis by (simp add: round_half_even_def)
  next
    case False
    with y have "y < 0" by simp
    then have "\<lfloor>y\<rfloor> < 0" by (simp add: floor_less_zero)
    then show ?thesis by (simp add: round_half_even_def Let_def)
  qed
qed

lemma round_half_even_pos: "1 \<le> y \<Longrightarrow> 1 \<le> round_half_even y"
proof -
  assume "1 \<le> y"
  then have "1 \<le> \<lfloor>y\<rfloor>" by (simp add: le_floor_iff)
  moreover have "\<lfloor>y\<rfloor> \<le> round_half_even y" by (simp add: round_half_even_def Let_def)
  ultimately show ?thesis by linarith
qed

lemma to_double_nonpos: "x \<le> 0 \<Longrightarrow> to_double x \<le> 0"
proof -
  assume x: "x \<le> 0"
  show ?thesis
  proof (cases "x = 0")
    case True
    then show ?thesis by (simp add: to_double_def)
  next
    case False
    define q where "q = pow2 (max (ilog2 \<bar>x\<bar>) (- 1022) - 52)"
    have q: "0 < q" by (simp add: q_def pow2_pos)
    have "x / q \<le> 0" using x q by (simp add: divide_le_0_iff)
    then have "round_half_even (x / q) \<le> 0" by (rule round_half_even_nonpos)
    then have "(of_int (round_half_even (x / q)) :: rat) \<le> 0" by simp
    then have "of_int (round_half_even (x / q)) * q \<le> 0" using q by (simp add: mult_le_0_iff)
    with False show ?thesis by (simp add: to_double_def Let_def q_def)
  qed
qed

lemma is_double_to_double: "is_double (to_double x)"
proof (cases "x = 0")
  case True
  have "(0::rat) = of_int 0 * pow2 (- 1074)" by simp
  then show ?thesis unfolding is_double_def to_double_def True by (auto simp del: of_int_0)
next
  case False
  define e where "e = max (ilog2 \<bar>x\<bar>) (- 1022)"
  define m where "m = round_half_even (x / pow2 (e - 52))"
  have e: "0 \<le> e + 1022" by (simp add: e_def)
  have "pow2 (e - 52) = pow2 ((e + 1022) + (- 1074))" by simp
  also have "\<dots> = pow2 (e + 1022) * pow2 (- 1074)" by (rule pow2_add)
  also have "pow2 (e + 1022) = of_int (2 ^ nat (e + 1022))" using e by (simp add: pow2_def)
  finally have "of_int m * pow2 (e - 52) = of_int (m * 2 ^ nat (e + 1022)) * pow2 (- 1074)"
    by simp
  moreover have "to_double x = of_int m * pow2 (e - 52)"
    using False by (simp add: to_double_def Let_def e_def m_def)
  ultimately show ?thesis unfolding is_double_def by metis
qed

lemma to_double_pos:
  assumes "is_double x" and "0 < x"
  shows "0 < to_double x"
proof -
  obtain k :: int where k: "x = of_int k * pow2 (- 1074)" using assms(1) by (auto simp: is_double_def)
  have "0 < k" using assms(2) pow2_pos [of "- 1074"] unfolding k by (simp add: zero_less_mult_iff)
  then have "(1::rat) \<le> of_int k" by simp
  then have lo: "pow2 (- 1074) \<le> x" unfolding k using pow2_pos [of "- 1074"] by (simp add: mult_le_cancel_right1)
  define e where "e = max (ilog2 \<bar>x\<bar>) (- 1022)"
  define q where "q = pow2 (e - 52)"
  have q: "0 < q" by (simp add: q_def pow2_pos)
  have "q \<le> x"
  proof (cases "ilog2 \<bar>x\<bar> \<le> - 1022")
    case True
    then have "e = - 1022" by (simp add: e_def)
    then show ?thesis using lo by (simp add: q_def)
  next
    case False
    then have "e = ilog2 x" using assms(2) by (simp add: e_def)
    then have "q \<le> pow2 (ilog2 x)" unfolding q_def by (simp add: pow2_mono)
    also have "\<dots> \<le> x" using assms(2) by (rule ilog2_lower)
    finally show ?thesis .
  qed
  then have "1 \<le> x / q" using q by (simp add: pos_le_divide_eq)
  then have "1 \<le> round_half_even (x / q)" by (rule round_half_even_pos)
  then have "(0::rat) < of_int (round_half_even (x / q))" by simp
  then have "0 < of_int (round_half_even (x / q)) * q" using q by simp
  then show ?thesis using assms(2) by (simp add: to_double_def Let_def e_def q_def)
qed

lemma is_double_diff: "is_double a \<Longrightarrow> is_double b \<Longrightarrow> is_double (a - b)"
proof -
  assume "is_double a" "is_double b"
  then obtain k l :: int where "a = of_int k * pow2 (- 1074)" "b = of_int l * pow2 (- 1074)"
    by (auto simp: is_double_def)
  then have "a - b = of_int (k - l) * pow2 (- 1074)" by (simp add: algebra_simps)
  then show ?thesis unfolding is_double_def by blast
qed

lemma js_sub_le_0_iff: "is_double a \<Longrightarrow> is_double b \<Longrightarrow> js_sub a b \<le> 0 \<longleftrightarrow> a \<le> b"
proof -
  assume ab: "is_double a" "is_double b"
  show ?thesis
  proof (cases "a \<le> b")
    case True
    then have "to_double (a - b) \<le> 0" by (simp add: to_double_nonpos)
    with True show ?thesis by (simp add: js_sub_def)
  next
    case False
    then have "0 < a - b" by simp
    with ab have "0 < to_double (a - b)" by (simp add: to_double_pos is_double_diff)
    with False show ?thesis by (simp add: js_sub_def)
  qed
qed

lemma ilog2_upper:
  assumes "0 < x"
  shows "x < pow2 (ilog2 x + 1)"
proof -
  obtain p q where pq: "quotient_of x = (p, q)" by (cases "quotient_of x")
  have q: "0 < q" using pq by (rule quotient_of_denom_pos)
  have x: "x = of_int p / of_int q" using pq by (rule quotient_of_div)
  have p: "0 < p" using assms q x by (simp add: zero_less_divide_iff)
  define c where "c = bitlen p - bitlen q"
  have bq: "1 \<le> bitlen q" using q bitlen_eq_zero_iff [of q] bitlen_nonneg [of q] by linarith
  have "p < 2 ^ nat (bitlen p)" using bitlen_bounds [OF p] by simp
  then have "(of_int p :: rat) < of_int ((2::int) ^ nat (bitlen p))" by (simp only: of_int_less_iff)
  then have hi: "of_int p < pow2 (bitlen p)" using bitlen_nonneg [of p] by (simp add: pow2_def)
  have "(2::int) ^ nat (bitlen q - 1) \<le> q" using bitlen_bounds [OF q] by simp
  then have "(of_int ((2::int) ^ nat (bitlen q - 1)) :: rat) \<le> of_int q" by (simp only: of_int_le_iff)
  then have lo: "pow2 (bitlen q - 1) \<le> of_int q" using bq by (simp add: pow2_def)
  have "of_int p < pow2 (bitlen p)" by (rule hi)
  also have "\<dots> = pow2 (c + 1) * pow2 (bitlen q - 1)" by (simp add: c_def flip: pow2_add)
  also have "\<dots> \<le> pow2 (c + 1) * of_int q"
    using lo pow2_pos [of "c + 1"] by (simp add: mult_left_mono)
  finally have "of_int p / of_int q < pow2 (c + 1)" using q by (simp add: pos_divide_less_eq)
  then have up: "x < pow2 (c + 1)" by (simp only: x)
  show ?thesis
  proof (cases "pow2 c \<le> x")
    case True
    then show ?thesis using up by (simp add: ilog2_def pq c_def)
  next
    case False
    then show ?thesis by (simp add: ilog2_def pq c_def)
  qed
qed

lemma round_half_even_error: "\<bar>of_int (round_half_even y) - y\<bar> \<le> 1 / 2"
proof -
  define f where "f = \<lfloor>y\<rfloor>"
  define d where "d = y - of_int f"
  have d: "0 \<le> d" "d < 1" unfolding d_def f_def by linarith+
  have y: "y = of_int f + d" by (simp add: d_def)
  consider "d < 1 / 2" | "1 / 2 < d" | "d = 1 / 2" by linarith
  then show ?thesis
  proof cases
    case 1
    then have "round_half_even y = f" by (simp add: round_half_even_def Let_def f_def d_def)
    then show ?thesis using 1 d y by simp
  next
    case 2
    then have "round_half_even y = f + 1" by (simp add: round_half_even_def Let_def f_def d_def)
    then show ?thesis using 2 d y by simp
  next
    case 3
    then have "round_half_even y = f \<or> round_half_even y = f + 1"
      by (simp add: round_half_even_def Let_def f_def d_def)
    then show ?thesis
    proof
      assume "round_half_even y = f"
      then have "of_int (round_half_even y) - y = - d" by (simp add: d_def)
      then show ?thesis using 3 by simp
    next
      assume "round_half_even y = f + 1"
      then have "of_int (round_half_even y) - y = 1 - d" by (simp add: d_def)
      then show ?thesis using 3 by simp
    qed
  qed
qed

lemma to_double_error:
  assumes "x \<noteq> 0"
  shows "\<bar>to_double x - x\<bar> \<le> pow2 (max (ilog2 \<bar>x\<bar>) (- 1022) - 52) / 2"
proof -
  define q where "q = pow2 (max (ilog2 \<bar>x\<bar>) (- 1022) - 52)"
  have q: "0 < q" by (simp add: q_def pow2_pos)
  have "to_double x - x = (of_int (round_half_even (x / q)) - x / q) * q"
    using assms q by (simp add: to_double_def Let_def q_def algebra_simps)
  then have "\<bar>to_double x - x\<bar> = \<bar>of_int (round_half_even (x / q)) - x / q\<bar> * q"
    using q by (simp add: abs_mult)
  also have "\<dots> \<le> (1 / 2) * q"
    using round_half_even_error [of "x / q"] q by (simp add: mult_right_mono)
  finally show ?thesis by (simp add: q_def)
qed

section \<open>The sort and the loop\<close>

lemma set_insert_by: "set (insert_by cmp x ys) = insert x (set ys)"
  by (induction ys) auto

lemma mset_insert_by: "mset (insert_by cmp x ys) = add_mset x (mset ys)"
  by (induction ys) auto

lemma mset_js_sort: "mset (js_sort cmp xs) = mset xs"
  by (induction xs) (auto simp: js_sort_def mset_insert_by)

lemma set_js_sort: "set (js_sort cmp xs) = set xs"
  using mset_js_sort [of cmp xs] by (metis set_mset_mset)

lemma compare_time_le_0_iff:
  "is_double (time a) \<Longrightarrow> is_double (time b) \<Longrightarrow> compare_time a b \<le> 0 \<longleftrightarrow> time a \<le> time b"
  by (simp add: compare_time_def js_sub_le_0_iff)

lemma sorted_insert_by:
  assumes "\<forall>y \<in> set ys. is_double (time y)" and "is_double (time x)"
    and "sorted (map time ys)"
  shows "sorted (map time (insert_by compare_time x ys))"
  using assms
proof (induction ys)
  case Nil
  then show ?case by simp
next
  case (Cons y ys)
  show ?case
  proof (cases "compare_time x y \<le> 0")
    case True
    then have "time x \<le> time y" using Cons.prems by (simp add: compare_time_le_0_iff)
    then show ?thesis using True Cons.prems by auto
  next
    case False
    then have "time y \<le> time x" using Cons.prems by (simp add: compare_time_le_0_iff)
    moreover have "sorted (map time (insert_by compare_time x ys))"
      using Cons by simp
    ultimately show ?thesis using False Cons.prems by (auto simp: set_insert_by)
  qed
qed

lemma sorted_js_sort:
  "\<forall>x \<in> set xs. is_double (time x) \<Longrightarrow> sorted (map time (js_sort compare_time xs))"
proof (induction xs)
  case Nil
  then show ?case by (simp add: js_sort_def)
next
  case (Cons x xs)
  then have "sorted (map time (js_sort compare_time xs))" by simp
  moreover have "\<forall>y \<in> set (js_sort compare_time xs). is_double (time y)"
    using Cons.prems by (simp add: set_js_sort)
  ultimately have "sorted (map time (insert_by compare_time x (js_sort compare_time xs)))"
    using Cons.prems by (simp add: sorted_insert_by)
  then show ?case by (simp add: js_sort_def)
qed

lemma is_double_match_time: "is_double (match_time m)"
  by (simp add: match_time_def Let_def js_add_def is_double_to_double)

lemma tokenize_total: "\<exists>ws ds. tokenize intl text = Inr (ws, ds)"
  by (auto simp: tokenize_def split: option.splits sum.splits)

lemma parse_line_total: "\<exists>st'. parse_line intl line st = Inr st'"
  using tokenize_total [of intl "trim (replace_timeRegex line)"]
  by (auto simp: parse_line_def Let_def split: option.splits)

lemma parse_lines_total: "\<exists>st'. parse_lines intl ls st = Inr st'"
proof (induction ls arbitrary: st)
  case Nil
  then show ?case by simp
next
  case (Cons l ls)
  obtain st1 where "parse_line intl l st = Inr st1" using parse_line_total by blast
  then show ?case using Cons.IH [of st1] by simp
qed

lemma parseLRC_total: "\<exists>ls con. parseLRC intl s = Inr (ls, con)"
  using parse_lines_total [of intl "split_on 0x0A s" "\<lparr>lyrics = [], console = []\<rparr>"]
  by (auto simp: parseLRC_def)

section \<open>One line at a time\<close>

lemma emit_eq:
  "emit intl line =
     (case timeRegex_exec line of
        None \<Rightarrow> ([], [])
      | Some m \<Rightarrow>
          if trim (replace_timeRegex line) = [] then ([], [])
          else (case tokenize intl (trim (replace_timeRegex line)) of
                  Inl e \<Rightarrow> ([], [])
                | Inr (ws, ds) \<Rightarrow>
                    ([\<lparr>time = match_time m, text' = trim (replace_timeRegex line), words = ws,
                       isJapanese = hasJapanese (trim (replace_timeRegex line))\<rparr>], ds)))"
  by (simp add: emit_def parse_line_def Let_def split: option.splits sum.splits prod.splits)

lemma parse_line_emit:
  "parse_line intl line st =
     Inr \<lparr>lyrics = lyrics st @ fst (emit intl line), console = console st @ snd (emit intl line)\<rparr>"
  using tokenize_total [of intl "trim (replace_timeRegex line)"]
  by (auto simp: emit_def parse_line_def Let_def split: option.splits)

lemma parse_lines_emit:
  "parse_lines intl ls st =
     Inr \<lparr>lyrics = lyrics st @ concat (map (\<lambda>l. fst (emit intl l)) ls),
          console = console st @ concat (map (\<lambda>l. snd (emit intl l)) ls)\<rparr>"
  by (induction ls arbitrary: st) (simp_all add: parse_line_emit)

lemma parseLRC_emit:
  "parseLRC intl s =
     Inr (js_sort compare_time (concat (map (\<lambda>l. fst (emit intl l)) (split_on 0x0A s))),
          concat (map (\<lambda>l. snd (emit intl l)) (split_on 0x0A s)))"
  by (simp add: parseLRC_def parse_lines_emit)

lemma length_emit: "length (fst (emit intl l)) \<le> 1"
  by (simp add: emit_eq split: option.splits sum.splits prod.splits)

lemma js_sort_short: "length xs \<le> 1 \<Longrightarrow> js_sort cmp xs = xs"
  by (cases xs) (auto simp: js_sort_def)

lemma split_on_single: "sep \<notin> set s \<Longrightarrow> split_on sep s = [s]"
  by (induction s) auto

lemma split_on_nonempty: "split_on sep s \<noteq> []"
  by (induction s) auto

lemma split_on_no_sep: "l \<in> set (split_on sep s) \<Longrightarrow> sep \<notin> set l"
proof (induction s arbitrary: l)
  case Nil
  then show ?case by simp
next
  case (Cons c s)
  obtain h t where ht: "split_on sep s = h # t"
    using split_on_nonempty [of sep s] by (cases "split_on sep s") auto
  show ?case
  proof (cases "c = sep")
    case True
    then show ?thesis using Cons by auto
  next
    case False
    then have "l = c # h \<or> l \<in> set t" using Cons.prems ht by auto
    then show ?thesis using Cons.IH ht False by auto
  qed
qed

lemma parseLRC_single: "0x0A \<notin> set l \<Longrightarrow> parseLRC intl l = Inr (emit intl l)"
  using js_sort_short [OF length_emit, of compare_time intl l]
  by (simp add: parseLRC_emit split_on_single)

lemma lines_of_single: "l \<in> set (split_on 0x0A s) \<Longrightarrow> lines_of (parseLRC intl l) = fst (emit intl l)"
  by (simp add: parseLRC_single split_on_no_sep lines_of_def split: prod.splits)

lemma warnings_of_single: "l \<in> set (split_on 0x0A s) \<Longrightarrow> warnings_of (parseLRC intl l) = snd (emit intl l)"
  by (simp add: parseLRC_single split_on_no_sep warnings_of_def split: prod.splits)

lemma lines_of_parseLRC:
  "lines_of (parseLRC intl s) =
     js_sort compare_time (concat (map (\<lambda>l. lines_of (parseLRC intl l)) (split_on 0x0A s)))"
proof -
  have "map (\<lambda>l. lines_of (parseLRC intl l)) (split_on 0x0A s) =
        map (\<lambda>l. fst (emit intl l)) (split_on 0x0A s)"
    using lines_of_single [of _ s intl] by (simp cong: map_cong)
  moreover have "lines_of (parseLRC intl s) =
      js_sort compare_time (concat (map (\<lambda>l. fst (emit intl l)) (split_on 0x0A s)))"
    by (simp add: parseLRC_emit [of intl s] lines_of_def)
  ultimately show ?thesis by (simp only:)
qed

lemma warnings_of_parseLRC:
  "warnings_of (parseLRC intl s) =
     concat (map (\<lambda>l. warnings_of (parseLRC intl l)) (split_on 0x0A s))"
proof -
  have "map (\<lambda>l. warnings_of (parseLRC intl l)) (split_on 0x0A s) =
        map (\<lambda>l. snd (emit intl l)) (split_on 0x0A s)"
    using warnings_of_single [of _ s intl] by (simp cong: map_cong)
  moreover have "warnings_of (parseLRC intl s) =
      concat (map (\<lambda>l. snd (emit intl l)) (split_on 0x0A s))"
    by (simp add: parseLRC_emit [of intl s] warnings_of_def)
  ultimately show ?thesis by (simp only:)
qed

lemma emitted_origin:
  assumes "x \<in> set (lines_of (parseLRC intl s))"
  shows "\<exists>l m ds. l \<in> set (split_on 0x0A s) \<and> timeRegex_exec l = Some m \<and>
           text' x = trim (replace_timeRegex l) \<and> text' x \<noteq> [] \<and> time x = match_time m \<and>
           isJapanese x = hasJapanese (text' x) \<and> tokenize intl (text' x) = Inr (words x, ds)"
proof -
  from assms obtain l where l: "l \<in> set (split_on 0x0A s)" and x: "x \<in> set (fst (emit intl l))"
    by (auto simp: parseLRC_emit lines_of_def set_js_sort)
  from x show ?thesis using l
    by (auto simp: emit_eq split: option.splits if_splits sum.splits prod.splits)
qed

lemma emitted_line:
  assumes "l \<in> set (split_on 0x0A s)" and "timeRegex_exec l = Some m"
    and "trim (replace_timeRegex l) \<noteq> []" and "tokenize intl (trim (replace_timeRegex l)) = Inr (ws, ds)"
  shows "\<lparr>time = match_time m, text' = trim (replace_timeRegex l), words = ws,
           isJapanese = hasJapanese (trim (replace_timeRegex l))\<rparr> \<in> set (lines_of (parseLRC intl s))
         \<and> set ds \<subseteq> set (warnings_of (parseLRC intl s))"
proof -
  have "emit intl l = ([\<lparr>time = match_time m, text' = trim (replace_timeRegex l), words = ws,
           isJapanese = hasJapanese (trim (replace_timeRegex l))\<rparr>], ds)"
    using assms by (simp add: emit_eq)
  then show ?thesis using assms(1)
    by (force simp: parseLRC_emit lines_of_def warnings_of_def set_js_sort)
qed

section \<open>Trimming and splitting at whitespace\<close>

lemma trim_ends:
  assumes "trim s \<noteq> []"
  shows "\<not> is_ws (hd (trim s)) \<and> \<not> is_ws (last (trim s))"
proof -
  define u where "u = dropWhile is_ws s"
  define v where "v = dropWhile is_ws (rev u)"
  have t: "trim s = rev v" by (simp add: trim_def u_def v_def)
  have v: "v \<noteq> []" using assms t by simp
  then have hv: "\<not> is_ws (hd v)" unfolding v_def by (rule hd_dropWhile)
  have u: "u \<noteq> []" using v by (auto simp: v_def)
  then have hu: "\<not> is_ws (hd u)" unfolding u_def by (rule hd_dropWhile)
  have "rev u = takeWhile is_ws (rev u) @ v" by (simp add: v_def)
  then have "last (rev u) = last v" using v by (metis last_appendR)
  then have "last v = hd u" using u by (simp add: last_rev)
  then show ?thesis using hv hu v by (simp add: t hd_rev last_rev)
qed

lemma split_ws_nonempty: "split_ws s \<noteq> []"
  by (induction s rule: split_ws.induct) auto

lemma split_ws_no_ws: "w \<in> set (split_ws s) \<Longrightarrow> c \<in> set w \<Longrightarrow> \<not> is_ws c"
proof (induction s arbitrary: w rule: split_ws.induct)
  case 1
  then show ?case by simp
next
  case (2 d cs)
  show ?case
  proof (cases "is_ws d")
    case True
    then show ?thesis using 2 by auto
  next
    case False
    obtain h t where ht: "split_ws cs = h # t"
      using split_ws_nonempty [of cs] by (cases "split_ws cs") auto
    have ih: "\<And>w'. w' \<in> set (split_ws cs) \<Longrightarrow> c \<in> set w' \<Longrightarrow> \<not> is_ws c"
      using "2.IH"(2) [OF False] by blast
    have "w = d # h \<or> w \<in> set t" using "2.prems" False ht by auto
    then show ?thesis
    proof
      assume "w = d # h"
      then have "c = d \<or> c \<in> set h" using "2.prems"(2) by auto
      then show ?thesis using False ih [of h] ht by auto
    next
      assume "w \<in> set t"
      then show ?thesis using ih [of w] "2.prems"(2) ht by auto
    qed
  qed
qed

lemma split_ws_tl:
  "(s \<noteq> [] \<Longrightarrow> \<not> is_ws (last s)) \<Longrightarrow> w \<in> set (tl (split_ws s)) \<Longrightarrow> w \<noteq> []"
proof (induction s arbitrary: w rule: split_ws.induct)
  case 1
  then show ?case by simp
next
  case (2 d cs)
  show ?case
  proof (cases "is_ws d")
    case True
    define r where "r = dropWhile is_ws cs"
    have l: "\<not> is_ws (last (d # cs))" using "2.prems"(1) by simp
    then have cs: "cs \<noteq> []" using True by auto
    then have lcs: "\<not> is_ws (last cs)" using l by simp
    then have "last cs \<in> set r" using cs unfolding r_def
      by (metis dropWhile_eq_Nil_conv last_in_set takeWhile_dropWhile_id last_appendR)
    then have r: "r \<noteq> []" by auto
    then have hr: "\<not> is_ws (hd r)" unfolding r_def by (rule hd_dropWhile)
    have "cs = takeWhile is_ws cs @ r" by (simp add: r_def)
    then have "last r = last cs" using r by (metis last_appendR)
    then have lr: "\<not> is_ws (last r)" using lcs by simp
    obtain x xs where x: "r = x # xs" using r by (cases r) auto
    have w: "w \<in> set (split_ws r)" using "2.prems"(2) True by (simp add: r_def)
    have "split_ws r = (x # hd (split_ws xs)) # tl (split_ws xs)" using hr x by simp
    then have "w = x # hd (split_ws xs) \<or> w \<in> set (tl (split_ws r))" using w by auto
    then show ?thesis using "2.IH"(1) [OF True, of w] lr r_def by auto
  next
    case False
    then have w: "w \<in> set (tl (split_ws cs))" using "2.prems"(2) by simp
    have "cs \<noteq> [] \<Longrightarrow> \<not> is_ws (last cs)" using "2.prems"(1) by simp
    then show ?thesis using "2.IH"(2) [OF False _ w] by blast
  qed
qed

lemma split_ws_words:
  assumes "s \<noteq> []" and "\<not> is_ws (hd s)" and "\<not> is_ws (last s)" and "w \<in> set (split_ws s)"
  shows "w \<noteq> []"
proof -
  obtain c cs where s: "s = c # cs" using assms(1) by (cases s) auto
  then have "split_ws s = (c # hd (split_ws cs)) # tl (split_ws cs)" using assms(2) by simp
  then have "w = c # hd (split_ws cs) \<or> w \<in> set (tl (split_ws s))" using assms(4) by auto
  then show ?thesis using split_ws_tl [of s w] assms(3) by auto
qed

section \<open>The capture groups\<close>

lemma digits_Some: "digits n s = Some (d, r) \<Longrightarrow> length d = n \<and> list_all is_digit d \<and> s = d @ r"
  by (auto simp: digits_def split: if_splits)

lemma expect_Some: "expect c s = Some r \<Longrightarrow> s = c # r"
  by (auto simp: expect_def split: list.splits if_splits)

lemma fraction_close_Some:
  "fraction_close n s = Some (f, r) \<Longrightarrow> \<exists>d. f = Some d \<and> length d = n \<and> list_all is_digit d"
  by (auto simp: fraction_close_def Option.bind_eq_Some_conv dest!: digits_Some)

lemma match_tail_Some:
  assumes "match_tail s = Some (f, r)"
  shows "case f of None \<Rightarrow> True | Some d \<Rightarrow> (length d = 2 \<or> length d = 3) \<and> list_all is_digit d"
proof (cases "fraction_close 3 s")
  case (Some a)
  then show ?thesis using assms fraction_close_Some [of 3 s f r] by (auto simp: match_tail_def)
next
  case None
  show ?thesis
  proof (cases "fraction_close 2 s")
    case (Some a)
    then show ?thesis using assms None fraction_close_Some [of 2 s f r] by (auto simp: match_tail_def)
  next
    case None2: None
    then show ?thesis using assms None by (auto simp: match_tail_def Option.bind_eq_Some_conv)
  qed
qed

lemma match_here_Some:
  assumes "match_here s = Some (mm, ss, f, n)"
  shows "length mm = 2 \<and> list_all is_digit mm \<and> length ss = 2 \<and> list_all is_digit ss \<and>
         (case f of None \<Rightarrow> True | Some d \<Rightarrow> (length d = 2 \<or> length d = 3) \<and> list_all is_digit d)"
  using assms
  by (auto simp: match_here_def Option.bind_eq_Some_conv dest!: digits_Some match_tail_Some)

lemma exec_from_groups:
  "exec_from i s = Some m \<Longrightarrow>
     length (group1 m) = 2 \<and> list_all is_digit (group1 m) \<and>
     length (group2 m) = 2 \<and> list_all is_digit (group2 m) \<and>
     (case group4 m of None \<Rightarrow> True | Some d \<Rightarrow> (length d = 2 \<or> length d = 3) \<and> list_all is_digit d)"
proof (induction s arbitrary: i)
  case Nil
  then show ?case by simp
next
  case (Cons c cs)
  show ?case
  proof (cases "match_here (c # cs)")
    case None
    then show ?thesis using Cons by simp
  next
    case (Some r)
    obtain mm ss f n where r: "r = (mm, ss, f, n)" by (cases r) auto
    have "m = \<lparr>index = i, matched = take n (c # cs), group1 = mm, group2 = ss, group4 = f\<rparr>"
      using Cons.prems Some r by simp
    then show ?thesis using match_here_Some [of "c # cs" mm ss f n] Some r by simp
  qed
qed

lemma timeRegex_exec_groups:
  "timeRegex_exec line = Some m \<Longrightarrow>
     length (group1 m) = 2 \<and> list_all is_digit (group1 m) \<and>
     length (group2 m) = 2 \<and> list_all is_digit (group2 m) \<and>
     (case group4 m of None \<Rightarrow> True | Some d \<Rightarrow> (length d = 2 \<or> length d = 3) \<and> list_all is_digit d)"
  unfolding timeRegex_exec_def by (rule exec_from_groups)

section \<open>The range of the times\<close>

lemma round_half_even_of_int: "round_half_even (of_int k) = k"
  by (simp add: round_half_even_def)

lemma round_half_even_nonneg: "0 \<le> y \<Longrightarrow> 0 \<le> round_half_even y"
proof -
  assume "0 \<le> y"
  then have "0 \<le> \<lfloor>y\<rfloor>" by simp
  moreover have "\<lfloor>y\<rfloor> \<le> round_half_even y" by (simp add: round_half_even_def Let_def)
  ultimately show ?thesis by linarith
qed

lemma to_double_nonneg: "0 \<le> x \<Longrightarrow> 0 \<le> to_double x"
proof -
  assume x: "0 \<le> x"
  define q where "q = pow2 (max (ilog2 \<bar>x\<bar>) (- 1022) - 52)"
  have q: "0 < q" by (simp add: q_def pow2_pos)
  have "0 \<le> x / q" using x q by simp
  then have "0 \<le> round_half_even (x / q)" by (rule round_half_even_nonneg)
  then have "0 \<le> (of_int (round_half_even (x / q)) :: rat) * q" using q by simp
  then show ?thesis by (simp add: to_double_def Let_def q_def)
qed

lemma pow2_numeral: "pow2 0 = 1" "pow2 53 = 2 ^ 53" "pow2 (- 53) = 1 / 2 ^ 53"
  by (simp_all add: pow2_def)

lemma to_double_of_nat:
  assumes "n < 2 ^ 53"
  shows "to_double (of_nat n) = of_nat n"
proof (cases "n = 0")
  case True
  then show ?thesis by (simp add: to_double_def)
next
  case False
  define x :: rat where "x = of_nat n"
  define e where "e = ilog2 x"
  have x: "1 \<le> x" using False by (simp add: x_def)
  then have pos: "0 < x" by simp
  have lo: "pow2 e \<le> x" unfolding e_def using pos by (rule ilog2_lower)
  have hi: "x < pow2 (e + 1)" unfolding e_def using pos by (rule ilog2_upper)
  have e0: "0 \<le> e"
  proof (rule ccontr)
    assume "\<not> 0 \<le> e"
    then have "pow2 (e + 1) \<le> pow2 0" by (intro pow2_mono) simp
    then show False using hi x by (simp add: pow2_numeral)
  qed
  have "x < 2 ^ 53" using assms unfolding x_def
    by (metis of_nat_less_iff of_nat_numeral of_nat_power)
  have e52: "e \<le> 52"
  proof (rule ccontr)
    assume "\<not> e \<le> 52"
    then have "pow2 53 \<le> pow2 e" by (intro pow2_mono) simp
    then show False using lo \<open>x < 2 ^ 53\<close> by (simp add: pow2_numeral)
  qed
  define k where "k = nat (52 - e)"
  have q: "pow2 (e - 52) = 1 / 2 ^ k"
  proof (cases "e = 52")
    case True
    then show ?thesis by (simp add: pow2_def k_def)
  next
    case False
    then have "e - 52 < 0" using e52 by simp
    then show ?thesis by (simp add: pow2_def k_def)
  qed
  have "x / pow2 (e - 52) = of_int (int n * 2 ^ k)" by (simp add: q x_def)
  then have "round_half_even (x / pow2 (e - 52)) = int n * 2 ^ k"
    by (simp only: round_half_even_of_int)
  then have "of_int (round_half_even (x / pow2 (e - 52))) * pow2 (e - 52) = x"
    by (simp add: q x_def)
  moreover have "max (ilog2 \<bar>x\<bar>) (- 1022) = e" using e0 pos by (simp add: e_def)
  ultimately have "to_double x = x" using pos by (simp add: to_double_def Let_def)
  then show ?thesis by (simp add: x_def)
qed

lemma to_double_upper:
  assumes "0 \<le> x"
  shows "to_double x \<le> x * (1 + pow2 (- 53)) + pow2 (- 1075)"
proof (cases "x = 0")
  case True
  then show ?thesis using pow2_pos [of "- 1075"] by (simp add: to_double_def)
next
  case False
  then have pos: "0 < x" using assms by simp
  define e where "e = ilog2 x"
  have lo: "pow2 e \<le> x" unfolding e_def using pos by (rule ilog2_lower)
  have err: "\<bar>to_double x - x\<bar> \<le> pow2 (max e (- 1022) - 52) / 2"
    using to_double_error [OF False] pos by (simp add: e_def)
  have half: "pow2 (d - 52) / 2 = pow2 d * pow2 (- 53)" for d
  proof -
    have "pow2 (d - 52) = pow2 (d + (- 53) + 1)" by simp
    also have "\<dots> = pow2 (d + (- 53)) * pow2 1" by (rule pow2_add)
    also have "pow2 (d + (- 53)) = pow2 d * pow2 (- 53)" by (rule pow2_add)
    also have "pow2 1 = 2" by (simp add: pow2_def)
    finally show ?thesis by simp
  qed
  have "pow2 (max e (- 1022) - 52) / 2 \<le> x * pow2 (- 53) + pow2 (- 1075)"
  proof (cases "- 1022 \<le> e")
    case True
    then have "pow2 (max e (- 1022) - 52) / 2 = pow2 e * pow2 (- 53)" by (simp add: half)
    also have "\<dots> \<le> x * pow2 (- 53)" using lo pow2_pos [of "- 53"] by (simp add: mult_right_mono)
    finally show ?thesis using pow2_pos [of "- 1075"] by linarith
  next
    case False
    then have "pow2 (max e (- 1022) - 52) / 2 = pow2 (- 1022) * pow2 (- 53)"
      using half [of "- 1022"] by simp
    also have "\<dots> = pow2 (- 1075)" using pow2_add [of "- 1022" "- 53"] by simp
    finally show ?thesis using pos pow2_pos [of "- 53"] by simp
  qed
  with err have "to_double x - x \<le> x * pow2 (- 53) + pow2 (- 1075)" by linarith
  then show ?thesis by (simp add: algebra_simps)
qed

lemma is_digit_val: "is_digit c \<Longrightarrow> digit_val c \<le> 9"
  by (simp add: is_digit_def digit_val_def word_le_nat_alt) arith

lemma decimal_bound:
  "list_all is_digit s \<Longrightarrow> foldl (\<lambda>n c. 10 * n + digit_val c) a s < (a + 1) * 10 ^ length s"
proof (induction s arbitrary: a)
  case Nil
  then show ?case by simp
next
  case (Cons c s)
  have d: "digit_val c \<le> 9" using Cons.prems by (simp add: is_digit_val)
  have "foldl (\<lambda>n c. 10 * n + digit_val c) (10 * a + digit_val c) s
          < (10 * a + digit_val c + 1) * 10 ^ length s"
    using Cons by simp
  also have "\<dots> \<le> (10 * a + 10) * 10 ^ length s"
  proof (rule mult_le_mono1)
    show "10 * a + digit_val c + 1 \<le> 10 * a + 10" using d by simp
  qed
  finally show ?case by (simp add: algebra_simps)
qed

lemma parseInt10_digits:
  assumes "list_all is_digit s" and "length s \<le> 3"
  shows "\<exists>n. n < 10 ^ length s \<and> parseInt10 s = of_nat n"
proof -
  define n where "n = foldl (\<lambda>n c. 10 * n + digit_val c) 0 s"
  have n: "n < 10 ^ length s" using decimal_bound [OF assms(1), of 0] by (simp add: n_def)
  also have "(10::nat) ^ length s \<le> 10 ^ 3" using assms(2) by (intro power_increasing) simp_all
  finally have "n < 2 ^ 53" by simp
  then have exact: "to_double (of_nat n) = of_nat n" by (rule to_double_of_nat)
  have tw: "takeWhile is_digit s = s"
    using assms(1) by (simp add: takeWhile_eq_all_conv list_all_iff)
  have "parseInt10 s = to_double (of_nat n)" by (simp only: parseInt10_def n_def tw)
  then have "parseInt10 s = of_nat n" by (simp only: exact)
  then show ?thesis using n by blast
qed

lemma match_time_bounds:
  assumes "timeRegex_exec line = Some m"
  shows "0 \<le> match_time m \<and> match_time m < 6041"
proof -
  note g = timeRegex_exec_groups [OF assms]
  obtain a where a: "a < 100" "parseInt10 (group1 m) = of_nat a"
    using parseInt10_digits [of "group1 m"] g by auto
  obtain b where b: "b < 100" "parseInt10 (group2 m) = of_nat b"
    using parseInt10_digits [of "group2 m"] g by auto
  define ms where "ms = (case group4 m of None \<Rightarrow> 0
      | Some f \<Rightarrow> if f = [] then 0 else parseInt10 (padEnd 3 0x30 f))"
  have "\<exists>c. c < 1000 \<and> ms = of_nat c"
  proof (cases "group4 m")
    case None
    then have "ms = of_nat 0" by (simp add: ms_def)
    then show ?thesis by (metis zero_less_numeral)
  next
    case (Some f)
    then have f: "(length f = 2 \<or> length f = 3) \<and> list_all is_digit f" using g by simp
    then have "list_all is_digit (padEnd 3 0x30 f)" "length (padEnd 3 0x30 f) = 3"
      by (auto simp: padEnd_def is_digit_def)
    then obtain c where "c < 10 ^ 3" "parseInt10 (padEnd 3 0x30 f) = of_nat c"
      using parseInt10_digits [of "padEnd 3 0x30 f"] by auto
    moreover have "f \<noteq> []" using f by auto
    ultimately show ?thesis using Some by (auto simp: ms_def)
  qed
  then obtain c where c: "c < 1000" "ms = of_nat c" by blast
  have "a * 60 < 2 ^ 53" using a(1) by simp
  then have m60: "js_mul (of_nat a) 60 = of_nat (a * 60)"
    using to_double_of_nat [of "a * 60"] by (simp add: js_mul_def)
  have "a * 60 + b < 2 ^ 53" using a(1) b(1) by simp
  then have whole: "js_add (of_nat (a * 60)) (of_nat b) = of_nat (a * 60 + b)"
    using to_double_of_nat [of "a * 60 + b"] by (simp add: js_add_def)
  define f where "f = js_div (of_nat c) 1000"
  have x: "(0::rat) \<le> of_nat c / 1000" "(of_nat c :: rat) / 1000 \<le> 999 / 1000"
    using c(1) by simp_all
  have f0: "0 \<le> f" unfolding f_def js_div_def using x(1) by (rule to_double_nonneg)
  have small: "pow2 (- 1075) \<le> pow2 (- 53)" by (rule pow2_mono) simp
  have "f \<le> of_nat c / 1000 * (1 + pow2 (- 53)) + pow2 (- 1075)"
    unfolding f_def js_div_def using x(1) by (rule to_double_upper)
  also have "\<dots> \<le> 999 / 1000 * (1 + pow2 (- 53)) + pow2 (- 53)"
    using x(2) small pow2_pos [of "- 53"] by (intro add_mono mult_right_mono) simp_all
  also have "\<dots> < 1" by (simp add: pow2_numeral)
  finally have f1: "f < 1" .
  define N where "N = a * 60 + b"
  have N: "N \<le> 6039" using a(1) b(1) by (simp add: N_def)
  have "match_time m = js_add (js_add (js_mul (parseInt10 (group1 m)) 60) (parseInt10 (group2 m)))
      (js_div ms 1000)"
    by (simp add: match_time_def Let_def ms_def)
  also have "\<dots> = js_add (of_nat N) f"
    by (simp only: a(2) b(2) c(2) m60 whole f_def N_def)
  also have "\<dots> = to_double (of_nat N + f)"
    by (simp only: js_add_def)
  finally have t: "match_time m = to_double (of_nat N + f)" .
  have s0: "(0::rat) \<le> of_nat N + f" using f0 by simp
  have s1: "of_nat N + f \<le> 6040" using N f1 by simp
  have "to_double (of_nat N + f) \<le> (of_nat N + f) * (1 + pow2 (- 53)) + pow2 (- 1075)"
    using s0 by (rule to_double_upper)
  also have "\<dots> \<le> 6040 * (1 + pow2 (- 53)) + pow2 (- 53)"
    using s1 small pow2_pos [of "- 53"] by (intro add_mono mult_right_mono) simp_all
  also have "\<dots> < 6041" by (simp add: pow2_numeral)
  finally have "to_double (of_nat N + f) < 6041" .
  moreover have "0 \<le> to_double (of_nat N + f)" using s0 by (rule to_double_nonneg)
  ultimately show ?thesis by (simp add: t)
qed

section \<open>Evaluation on concrete inputs\<close>

lemma split_ws_step:
  "split_ws (c # cs) =
     (if is_ws c then [] # split_ws (dropWhile is_ws cs)
      else (case split_ws cs of [] \<Rightarrow> [[c]] | h # t \<Rightarrow> (c # h) # t))"
  using split_ws_nonempty [of cs] by (cases "split_ws cs") auto

lemma split_on_step:
  "split_on sep (c # cs) =
     (if c = sep then [] # split_on sep cs
      else (case split_on sep cs of [] \<Rightarrow> [[c]] | h # t \<Rightarrow> (c # h) # t))"
  using split_on_nonempty [of sep cs] by (cases "split_on sep cs") auto

lemma to_double_0: "to_double 0 = 0"
  by (simp add: to_double_def)

lemma to_double_values:
  "to_double 1 = 1" "to_double 2 = 2" "to_double 5 = 5" "to_double 50 = 50" "to_double 500 = 500"
  by code_simp+

lemma time_values:
  "js_add (js_add (js_mul 0 60) 1) (js_div 500 1000) = 3 / 2"
  "js_add (js_add (js_mul 0 60) 1) (js_div 50 1000) = to_double (105 / 100)"
  "js_add (js_add (js_mul 0 60) 1) (js_div 0 1000) = 1"
  "js_add (js_add (js_mul 0 60) 2) (js_div 0 1000) = 2"
  "js_add (js_add (js_mul 0 60) 5) (js_div 0 1000) = 5"
  "js_add (js_add (js_mul 0 60) 2) (js_div 500 1000) = 5 / 2"
  by code_simp+

lemmas eval_simps = js_str_def is_digit_def is_ws_def expect_def digits_def fraction_close_def
  match_tail_def match_here_def timeRegex_exec_def replace_timeRegex_def trim_def padEnd_def
  parseInt10_def digit_val_def match_time_def to_double_0 to_double_values time_values
  is_kana_def is_cjk_def hasJapanese_def hasChineseChars_def isChinese_def
  segment_words_def tokenize_def split_chars_def split_ws_step split_on_step emit_eq

section \<open>The claims\<close>

lemma emit_time_double: "x \<in> set (fst (emit intl l)) \<Longrightarrow> is_double (time x)"
  by (auto simp: emit_eq is_double_match_time split: option.splits if_splits sum.splits prod.splits)

lemma sorted_adjacent: "sorted xs \<Longrightarrow> Suc i < length xs \<Longrightarrow> xs ! i \<le> xs ! Suc i"
  by (simp add: sorted_iff_nth_mono)

text \<open>
  C1. For every input string, the sequence returned by \<open>parseLRC\<close> is sorted
  non-decreasing by time: of every two adjacent elements of the output, the earlier has a
  time less than or equal to the later one's.
\<close>

theorem parseLRC_sorted:
  "\<exists>ls con. parseLRC intl s = Inr (ls, con) \<and> sorted (map time ls) \<and>
     (\<forall>i. Suc i < length ls \<longrightarrow> time (ls ! i) \<le> time (ls ! Suc i))"
proof -
  define xs where "xs = concat (map (\<lambda>l. fst (emit intl l)) (split_on 0x0A s))"
  define ls where "ls = js_sort compare_time xs"
  have "\<forall>x \<in> set xs. is_double (time x)"
    by (auto simp: xs_def emit_time_double)
  then have sorted: "sorted (map time ls)" unfolding ls_def by (rule sorted_js_sort)
  have "\<forall>i. Suc i < length ls \<longrightarrow> time (ls ! i) \<le> time (ls ! Suc i)"
  proof (intro allI impI)
    fix i
    assume i: "Suc i < length ls"
    then have "map time ls ! i \<le> map time ls ! Suc i"
      using sorted sorted_adjacent [of "map time ls" i] by simp
    then show "time (ls ! i) \<le> time (ls ! Suc i)" using i by simp
  qed
  moreover have "\<exists>con. parseLRC intl s = Inr (ls, con)"
    by (simp add: parseLRC_emit ls_def xs_def)
  ultimately show ?thesis using sorted by blast
qed

lemma parseLRC_two_lines:
  "parseLRC None (js_str ''[00:02.00]b'' @ [0x0D, 0x0A] @ js_str ''[00:01.00]a'') =
   Inr ([\<lparr>time = 1, text' = js_str ''a'', words = [js_str ''a''], isJapanese = False\<rparr>,
         \<lparr>time = 2, text' = js_str ''b'', words = [js_str ''b''], isJapanese = False\<rparr>], [])"
  apply (simp add: parseLRC_emit eval_simps del: split_ws.simps(2) split_on.simps(2))
  apply (simp add: js_sort_def compare_time_def)
  apply code_simp
  done

theorem parseLRC_sorted_witness:
  "\<exists>ls con. parseLRC None (js_str ''[00:02.00]b'' @ [0x0D, 0x0A] @ js_str ''[00:01.00]a'') = Inr (ls, con) \<and>
     map time ls = [1, 2] \<and> Suc 0 < length ls \<and> time (ls ! 0) \<le> time (ls ! Suc 0)"
  using parseLRC_sorted [of None "js_str ''[00:02.00]b'' @ [0x0D, 0x0A] @ js_str ''[00:01.00]a''"]
  unfolding parseLRC_two_lines by simp

lemma tokenize_thrown:
  "hasJapanese t \<Longrightarrow> segmenter t = Inl e \<Longrightarrow>
   tokenize (Some segmenter) t = Inr (split_chars t, [Warn (js_str ''Intl.Segmenter error'') e])"
  by (simp add: tokenize_def segment_words_def)

lemma hasJapanese_nonempty: "hasJapanese t \<Longrightarrow> t \<noteq> []"
  by (auto simp: hasJapanese_def)

text \<open>
  C2. For every input string \<open>parseLRC\<close> returns a sequence and never passes an error
  on to the caller. When the segmenter throws on a line classified Japanese, the failure
  is caught, a diagnostic is written, and the words of that line are the characters of
  its text, one each; every line is parsed as it is when parsed alone.
\<close>

theorem parseLRC_never_fails:
  "(\<exists>ls con. parseLRC intl s = Inr (ls, con)) \<and>
   (\<forall>l m segmenter e.
      l \<in> set (split_on 0x0A s) \<and> timeRegex_exec l = Some m \<and>
      hasJapanese (trim (replace_timeRegex l)) \<and>
      intl = Some segmenter \<and> segmenter (trim (replace_timeRegex l)) = Inl e \<longrightarrow>
      \<lparr>time = match_time m, text' = trim (replace_timeRegex l),
       words = split_chars (trim (replace_timeRegex l)), isJapanese = True\<rparr>
        \<in> set (lines_of (parseLRC intl s)) \<and>
      Warn (js_str ''Intl.Segmenter error'') e \<in> set (warnings_of (parseLRC intl s))) \<and>
   mset (lines_of (parseLRC intl s)) =
     mset (concat (map (\<lambda>l. lines_of (parseLRC intl l)) (split_on 0x0A s))) \<and>
   warnings_of (parseLRC intl s) =
     concat (map (\<lambda>l. warnings_of (parseLRC intl l)) (split_on 0x0A s))"
proof (intro conjI allI impI)
  show "\<exists>ls con. parseLRC intl s = Inr (ls, con)" by (rule parseLRC_total)
next
  fix l m segmenter e
  assume h: "l \<in> set (split_on 0x0A s) \<and> timeRegex_exec l = Some m \<and>
      hasJapanese (trim (replace_timeRegex l)) \<and>
      intl = Some segmenter \<and> segmenter (trim (replace_timeRegex l)) = Inl e"
  define t where "t = trim (replace_timeRegex l)"
  have tok: "tokenize intl t = Inr (split_chars t, [Warn (js_str ''Intl.Segmenter error'') e])"
    using h by (simp add: t_def tokenize_thrown)
  have ne: "t \<noteq> []" using h by (simp add: t_def hasJapanese_nonempty)
  have r: "\<lparr>time = match_time m, text' = t, words = split_chars t, isJapanese = hasJapanese t\<rparr>
           \<in> set (lines_of (parseLRC intl s)) \<and>
        set [Warn (js_str ''Intl.Segmenter error'') e] \<subseteq> set (warnings_of (parseLRC intl s))"
    using emitted_line [of l s m intl "split_chars t" "[Warn (js_str ''Intl.Segmenter error'') e]"]
      h tok ne by (simp add: t_def)
  show "\<lparr>time = match_time m, text' = trim (replace_timeRegex l),
       words = split_chars (trim (replace_timeRegex l)), isJapanese = True\<rparr>
        \<in> set (lines_of (parseLRC intl s))"
    using r h by (simp add: t_def)
  show "Warn (js_str ''Intl.Segmenter error'') e \<in> set (warnings_of (parseLRC intl s))"
    using r by simp
next
  show "mset (lines_of (parseLRC intl s)) =
     mset (concat (map (\<lambda>l. lines_of (parseLRC intl l)) (split_on 0x0A s)))"
    by (subst lines_of_parseLRC) (rule mset_js_sort)
next
  show "warnings_of (parseLRC intl s) =
     concat (map (\<lambda>l. warnings_of (parseLRC intl l)) (split_on 0x0A s))"
    by (rule warnings_of_parseLRC)
qed

lemma parseLRC_thrown_example:
  "parseLRC (Some throwing) (js_str ''[00:02]ok'' @ [0x0A] @ js_str ''[00:01]'' @ [0x3042, 0x3044]) =
   Inr ([\<lparr>time = 1, text' = [0x3042, 0x3044], words = [[0x3042], [0x3044]], isJapanese = True\<rparr>,
         \<lparr>time = 2, text' = js_str ''ok'', words = [js_str ''ok''], isJapanese = False\<rparr>],
        [Warn (js_str ''Intl.Segmenter error'') (Thrown (js_str ''boom''))])"
  apply (simp add: parseLRC_emit eval_simps throwing_def del: split_ws.simps(2) split_on.simps(2))
  apply (simp add: js_sort_def compare_time_def)
  apply code_simp
  done

theorem parseLRC_never_fails_witness:
  "js_str ''[00:01]'' @ [0x3042, 0x3044]
     \<in> set (split_on 0x0A (js_str ''[00:02]ok'' @ [0x0A] @ js_str ''[00:01]'' @ [0x3042, 0x3044])) \<and>
   timeRegex_exec (js_str ''[00:01]'' @ [0x3042, 0x3044]) =
     Some \<lparr>index = 0, matched = js_str ''[00:01]'', group1 = js_str ''00'', group2 = js_str ''01'',
           group4 = None\<rparr> \<and>
   trim (replace_timeRegex (js_str ''[00:01]'' @ [0x3042, 0x3044])) = [0x3042, 0x3044] \<and>
   hasJapanese [0x3042, 0x3044] \<and>
   throwing [0x3042, 0x3044] = Inl (Thrown (js_str ''boom'')) \<and>
   \<lparr>time = 1, text' = [0x3042, 0x3044], words = [[0x3042], [0x3044]], isJapanese = True\<rparr>
     \<in> set (lines_of (parseLRC (Some throwing)
          (js_str ''[00:02]ok'' @ [0x0A] @ js_str ''[00:01]'' @ [0x3042, 0x3044]))) \<and>
   Warn (js_str ''Intl.Segmenter error'') (Thrown (js_str ''boom''))
     \<in> set (warnings_of (parseLRC (Some throwing)
          (js_str ''[00:02]ok'' @ [0x0A] @ js_str ''[00:01]'' @ [0x3042, 0x3044])))"
proof -
  let ?s = "js_str ''[00:02]ok'' @ [0x0A] @ js_str ''[00:01]'' @ [0x3042, 0x3044]"
  let ?l = "js_str ''[00:01]'' @ [0x3042, 0x3044]"
  let ?m = "\<lparr>index = 0, matched = js_str ''[00:01]'', group1 = js_str ''00'', group2 = js_str ''01'',
           group4 = None\<rparr>"
  have l: "?l \<in> set (split_on 0x0A ?s)"
    by (simp add: js_str_def split_on_step del: split_on.simps(2))
  have m: "timeRegex_exec ?l = Some ?m"
    by (simp add: eval_simps)
  have t: "trim (replace_timeRegex ?l) = [0x3042, 0x3044]"
    by (simp add: eval_simps)
  have j: "hasJapanese [0x3042, 0x3044]"
    by (simp add: hasJapanese_def is_kana_def)
  have e: "throwing [0x3042, 0x3044] = Inl (Thrown (js_str ''boom''))"
    by (simp add: throwing_def)
  have time: "match_time ?m = 1"
    by (simp add: eval_simps)
  have "\<lparr>time = match_time ?m, text' = trim (replace_timeRegex ?l),
       words = split_chars (trim (replace_timeRegex ?l)), isJapanese = True\<rparr>
        \<in> set (lines_of (parseLRC (Some throwing) ?s)) \<and>
      Warn (js_str ''Intl.Segmenter error'') (Thrown (js_str ''boom''))
        \<in> set (warnings_of (parseLRC (Some throwing) ?s))"
  proof (rule parseLRC_never_fails [of "Some throwing" ?s, THEN conjunct2, THEN conjunct1,
        THEN spec, THEN spec, THEN spec, THEN spec, THEN mp,
        of ?l ?m throwing "Thrown (js_str ''boom'')"])
    show "?l \<in> set (split_on 0x0A ?s) \<and> timeRegex_exec ?l = Some ?m \<and>
      hasJapanese (trim (replace_timeRegex ?l)) \<and>
      Some throwing = Some throwing \<and>
      throwing (trim (replace_timeRegex ?l)) = Inl (Thrown (js_str ''boom''))"
      using l m j e by (simp add: t)
  qed
  then show ?thesis using l m t j e by (simp add: time split_chars_def)
qed

text \<open>
  C3. \<open>parseLRC\<close> applied to the one-line input \<open>[00:01.50]Hello world\<close> returns
  exactly one line, with time 1.5, text \<open>Hello world\<close>, the two words \<open>Hello\<close> and
  \<open>world\<close>, and the Japanese flag false.
\<close>

theorem parseLRC_hello_world:
  "parseLRC intl (js_str ''[00:01.50]Hello world'') =
     Inr ([\<lparr>time = 3 / 2, text' = js_str ''Hello world'',
            words = [js_str ''Hello'', js_str ''world''], isJapanese = False\<rparr>], []) \<and>
   \<not> hasJapanese (js_str ''Hello world'') \<and> \<not> isChinese (js_str ''Hello world'')"
  by (simp add: parseLRC_single eval_simps del: split_ws.simps(2) split_on.simps(2))

lemma to_double_105: "to_double (21 / 20) = 4728779608739021 / 4503599627370496"
  by code_simp

lemma to_double_1105: "to_double (221 / 200) = 2488238794122199 / 2251799813685248"
  by code_simp

text \<open>
  C4, as the code has it. A fraction has two or three digits; two digits are hundredths
  of a second and three digits are thousandths: \<open>[00:01.50]\<close> and \<open>[00:01.500]\<close>
  both give the time 1.5, and \<open>[00:01.05]\<close> gives the double 1.05, not 1.105. A
  fraction of two digits is read as the fraction of three digits that ends in a zero.
  A fraction of one digit is no timestamp: \<open>[00:01.5]text\<close> gives no line.
\<close>

theorem parseLRC_fraction:
  "parseLRC intl (js_str ''[00:01.50]text'') =
     Inr ([\<lparr>time = 3 / 2, text' = js_str ''text'', words = [js_str ''text''], isJapanese = False\<rparr>], []) \<and>
   parseLRC intl (js_str ''[00:01.500]text'') =
     Inr ([\<lparr>time = 3 / 2, text' = js_str ''text'', words = [js_str ''text''], isJapanese = False\<rparr>], []) \<and>
   parseLRC intl (js_str ''[00:01.05]text'') =
     Inr ([\<lparr>time = to_double (105 / 100), text' = js_str ''text'', words = [js_str ''text''],
            isJapanese = False\<rparr>], []) \<and>
   to_double (105 / 100) \<noteq> to_double (1105 / 1000) \<and>
   \<bar>to_double (105 / 100) - 105 / 100\<bar> \<le> pow2 (- 53) \<and>
   match_time (m\<lparr>group4 := Some [a, b]\<rparr>) = match_time (m\<lparr>group4 := Some [a, b, 0x30]\<rparr>) \<and>
   parseLRC intl (js_str ''[00:01.5]text'') = Inr ([], [])"
proof (intro conjI)
  show "parseLRC intl (js_str ''[00:01.50]text'') =
     Inr ([\<lparr>time = 3 / 2, text' = js_str ''text'', words = [js_str ''text''], isJapanese = False\<rparr>], [])"
    by (simp add: parseLRC_single eval_simps del: split_ws.simps(2) split_on.simps(2))
  show "parseLRC intl (js_str ''[00:01.500]text'') =
     Inr ([\<lparr>time = 3 / 2, text' = js_str ''text'', words = [js_str ''text''], isJapanese = False\<rparr>], [])"
    by (simp add: parseLRC_single eval_simps del: split_ws.simps(2) split_on.simps(2))
  show "parseLRC intl (js_str ''[00:01.05]text'') =
     Inr ([\<lparr>time = to_double (105 / 100), text' = js_str ''text'', words = [js_str ''text''],
            isJapanese = False\<rparr>], [])"
    by (simp add: parseLRC_single eval_simps del: split_ws.simps(2) split_on.simps(2))
  show "to_double (105 / 100) \<noteq> to_double (1105 / 1000)"
    by (simp add: to_double_105 to_double_1105)
  show "\<bar>to_double (105 / 100) - 105 / 100\<bar> \<le> pow2 (- 53)"
    by (simp add: to_double_105 pow2_def)
  show "match_time (m\<lparr>group4 := Some [a, b]\<rparr>) = match_time (m\<lparr>group4 := Some [a, b, 0x30]\<rparr>)"
    by (simp add: match_time_def padEnd_def)
  show "parseLRC intl (js_str ''[00:01.5]text'') = Inr ([], [])"
    by (simp add: parseLRC_single eval_simps del: split_ws.simps(2) split_on.simps(2))
qed

text \<open>
  The first example of the claim as it is written: the fraction of \<open>[00:01.5]\<close> has one
  digit, the pattern matches nowhere in the line, and no line is emitted.
\<close>

theorem parseLRC_one_digit_fraction:
  "parseLRC None (js_str ''[00:01.5]text'') = Inr ([], []) \<and>
   timeRegex_exec (js_str ''[00:01.5]text'') = None"
  by (simp add: parseLRC_single eval_simps del: split_ws.simps(2) split_on.simps(2))

lemma length_emit_eq:
  "length (fst (emit intl l)) =
     (if timeRegex_exec l \<noteq> None \<and> trim (replace_timeRegex l) \<noteq> [] then 1 else 0)"
  using tokenize_total [of intl "trim (replace_timeRegex l)"]
  by (auto simp: emit_eq split: option.splits)

lemma length_concat_emit:
  "length (concat (map (\<lambda>l. fst (emit intl l)) ls)) =
     length (filter (\<lambda>l. timeRegex_exec l \<noteq> None \<and> trim (replace_timeRegex l) \<noteq> []) ls)"
  by (induction ls) (simp_all add: length_emit_eq)

lemma length_js_sort: "length (js_sort cmp xs) = length xs"
  using mset_js_sort [of cmp xs] by (metis size_mset)

lemma parse_line_dropped:
  "timeRegex_exec l = None \<or> trim (replace_timeRegex l) = [] \<Longrightarrow> parse_line intl l st = Inr st"
  by (auto simp: parse_line_def Let_def split: option.splits)

text \<open>
  C7. A line with no timestamp marker, and a line whose text is empty once the first
  marker is removed and the whitespace around it trimmed, adds no element to the output
  and raises no error: the loop body leaves the state as it is, and the output has as
  many elements as the input has lines with a marker and a text. \<open>no timestamp here\<close>
  and \<open>[00:05]\<close> followed by spaces both give the empty sequence.
\<close>

theorem parseLRC_drops_lines:
  "(timeRegex_exec l = None \<or> trim (replace_timeRegex l) = [] \<longrightarrow> parse_line intl l st = Inr st) \<and>
   (\<exists>ls con. parseLRC intl s = Inr (ls, con) \<and>
      length ls = length (filter (\<lambda>l. timeRegex_exec l \<noteq> None \<and> trim (replace_timeRegex l) \<noteq> [])
                           (split_on 0x0A s))) \<and>
   parseLRC intl (js_str ''no timestamp here'') = Inr ([], []) \<and>
   parseLRC intl (js_str ''[00:05]   '') = Inr ([], [])"
proof (intro conjI impI)
  assume "timeRegex_exec l = None \<or> trim (replace_timeRegex l) = []"
  then show "parse_line intl l st = Inr st" by (rule parse_line_dropped)
next
  show "\<exists>ls con. parseLRC intl s = Inr (ls, con) \<and>
      length ls = length (filter (\<lambda>l. timeRegex_exec l \<noteq> None \<and> trim (replace_timeRegex l) \<noteq> [])
                           (split_on 0x0A s))"
    by (simp add: parseLRC_emit length_js_sort length_concat_emit)
next
  show "parseLRC intl (js_str ''no timestamp here'') = Inr ([], [])"
    by (simp add: parseLRC_single eval_simps del: split_ws.simps(2) split_on.simps(2))
next
  show "parseLRC intl (js_str ''[00:05]   '') = Inr ([], [])"
    by (simp add: parseLRC_single eval_simps del: split_ws.simps(2) split_on.simps(2))
qed

theorem parseLRC_drops_lines_witness:
  "timeRegex_exec (js_str ''no timestamp here'') = None \<and>
   parse_line None (js_str ''no timestamp here'') \<lparr>lyrics = [], console = []\<rparr> =
     Inr \<lparr>lyrics = [], console = []\<rparr> \<and>
   timeRegex_exec (js_str ''[00:05]   '') \<noteq> None \<and>
   trim (replace_timeRegex (js_str ''[00:05]   '')) = [] \<and>
   parse_line None (js_str ''[00:05]   '') \<lparr>lyrics = [], console = []\<rparr> =
     Inr \<lparr>lyrics = [], console = []\<rparr>"
proof -
  have a: "timeRegex_exec (js_str ''no timestamp here'') = None"
    by (simp add: eval_simps)
  have b: "timeRegex_exec (js_str ''[00:05]   '') \<noteq> None"
    by (simp add: eval_simps)
  have c: "trim (replace_timeRegex (js_str ''[00:05]   '')) = []"
    by (simp add: eval_simps)
  show ?thesis
    using a b c
      parseLRC_drops_lines [of "js_str ''no timestamp here''" None "\<lparr>lyrics = [], console = []\<rparr>" "[]"]
      parseLRC_drops_lines [of "js_str ''[00:05]   ''" None "\<lparr>lyrics = [], console = []\<rparr>" "[]"]
    by blast
qed

lemma split_on_append: "sep \<notin> set a \<Longrightarrow> split_on sep (a @ sep # b) = a # split_on sep b"
  by (induction a) auto

lemma trim_not_ws_ends:
  "trim s \<noteq> [] \<Longrightarrow> is_ws c \<Longrightarrow> hd (trim s) \<noteq> c \<and> last (trim s) \<noteq> c"
  using trim_ends [of s] by auto

lemma is_ws_CR: "is_ws 0x0D"
  by (simp add: is_ws_def)

text \<open>
  C9, as the code has it. The lines are split at the line feed only, so a carriage
  return before it stays at the end of the line; the trim of the text then removes it,
  as it removes all whitespace at either end. \<open>[00:01.00]Hello\<close> followed by a
  carriage return and a line feed gives the text \<open>Hello\<close>, and no text of the output
  starts or ends with a carriage return. A carriage return inside the text is kept.
\<close>

theorem parseLRC_carriage_return:
  "(0x0A \<notin> set a \<longrightarrow> split_on 0x0A (a @ [0x0D, 0x0A] @ b) = (a @ [0x0D]) # split_on 0x0A b) \<and>
   (\<forall>x \<in> set (lines_of (parseLRC intl s)).
      text' x \<noteq> [] \<and> hd (text' x) \<noteq> 0x0D \<and> last (text' x) \<noteq> 0x0D) \<and>
   parseLRC intl (js_str ''[00:01.00]Hello'' @ [0x0D, 0x0A]) =
     Inr ([\<lparr>time = 1, text' = js_str ''Hello'', words = [js_str ''Hello''],
            isJapanese = False\<rparr>], []) \<and>
   parseLRC intl (js_str ''[00:01.00]Hello'' @ [0x0D] @ js_str ''World'') =
     Inr ([\<lparr>time = 1, text' = js_str ''Hello'' @ [0x0D] @ js_str ''World'',
            words = [js_str ''Hello'', js_str ''World''], isJapanese = False\<rparr>], [])"
proof (intro conjI impI ballI)
  assume "0x0A \<notin> set a"
  then have "(0x0A :: code_unit) \<notin> set (a @ [0x0D])" by simp
  then have "split_on 0x0A ((a @ [0x0D]) @ 0x0A # b) = (a @ [0x0D]) # split_on 0x0A b"
    by (rule split_on_append)
  then show "split_on 0x0A (a @ [0x0D, 0x0A] @ b) = (a @ [0x0D]) # split_on 0x0A b" by simp
next
  fix x
  assume "x \<in> set (lines_of (parseLRC intl s))"
  then obtain l where t: "text' x = trim (replace_timeRegex l)" and ne: "text' x \<noteq> []"
    using emitted_origin [of x intl s] by blast
  show "text' x \<noteq> []" by (rule ne)
  show "hd (text' x) \<noteq> 0x0D" using trim_not_ws_ends [of "replace_timeRegex l" "0x0D"] t ne is_ws_CR by simp
  show "last (text' x) \<noteq> 0x0D" using trim_not_ws_ends [of "replace_timeRegex l" "0x0D"] t ne is_ws_CR by simp
next
  show "parseLRC intl (js_str ''[00:01.00]Hello'' @ [0x0D, 0x0A]) =
     Inr ([\<lparr>time = 1, text' = js_str ''Hello'', words = [js_str ''Hello''],
            isJapanese = False\<rparr>], [])"
    apply (simp add: parseLRC_emit eval_simps del: split_ws.simps(2) split_on.simps(2))
    apply (simp add: js_sort_def)
    done
next
  show "parseLRC intl (js_str ''[00:01.00]Hello'' @ [0x0D] @ js_str ''World'') =
     Inr ([\<lparr>time = 1, text' = js_str ''Hello'' @ [0x0D] @ js_str ''World'',
            words = [js_str ''Hello'', js_str ''World''], isJapanese = False\<rparr>], [])"
    by (simp add: parseLRC_single eval_simps del: split_ws.simps(2) split_on.simps(2))
qed

text \<open>
  The example of the claim as it is written: the emitted text is \<open>Hello\<close>, without the
  carriage return that stood before the line feed.
\<close>

theorem parseLRC_trailing_carriage_return:
  "map text' (lines_of (parseLRC None (js_str ''[00:01.00]Hello'' @ [0x0D, 0x0A]))) = [js_str ''Hello''] \<and>
   last (js_str ''Hello'') \<noteq> 0x0D"
  apply (simp add: parseLRC_emit lines_of_def eval_simps del: split_ws.simps(2) split_on.simps(2))
  apply (simp add: js_sort_def)
  done

theorem parseLRC_carriage_return_witness:
  "0x0A \<notin> set (js_str ''[00:01.00]Hello'') \<and>
   split_on 0x0A (js_str ''[00:01.00]Hello'' @ [0x0D, 0x0A] @ []) =
     [js_str ''[00:01.00]Hello'' @ [0x0D], []] \<and>
   \<lparr>time = 1, text' = js_str ''Hello'', words = [js_str ''Hello''], isJapanese = False\<rparr>
     \<in> set (lines_of (parseLRC None (js_str ''[00:01.00]Hello'' @ [0x0D, 0x0A]))) \<and>
   js_str ''Hello'' \<noteq> [] \<and> hd (js_str ''Hello'') \<noteq> 0x0D \<and> last (js_str ''Hello'') \<noteq> 0x0D"
proof -
  let ?x = "\<lparr>time = 1, text' = js_str ''Hello'', words = [js_str ''Hello''], isJapanese = False\<rparr>"
  note T = parseLRC_carriage_return [of "js_str ''[00:01.00]Hello''" "[]" None
      "js_str ''[00:01.00]Hello'' @ [0x0D, 0x0A]"]
  have a: "0x0A \<notin> set (js_str ''[00:01.00]Hello'')" by (simp add: js_str_def)
  from T have "parseLRC None (js_str ''[00:01.00]Hello'' @ [0x0D, 0x0A]) = Inr ([?x], [])"
    by (elim conjE)
  then have x: "?x \<in> set (lines_of (parseLRC None (js_str ''[00:01.00]Hello'' @ [0x0D, 0x0A])))"
    by (simp add: lines_of_def)
  from T have "\<forall>x \<in> set (lines_of (parseLRC None (js_str ''[00:01.00]Hello'' @ [0x0D, 0x0A]))).
      text' x \<noteq> [] \<and> hd (text' x) \<noteq> 0x0D \<and> last (text' x) \<noteq> 0x0D"
    by (elim conjE)
  with x have "text' ?x \<noteq> [] \<and> hd (text' ?x) \<noteq> 0x0D \<and> last (text' ?x) \<noteq> 0x0D"
    by (rule bspec [rotated])
  moreover from T a have "split_on 0x0A (js_str ''[00:01.00]Hello'' @ [0x0D, 0x0A] @ []) =
      (js_str ''[00:01.00]Hello'' @ [0x0D]) # split_on 0x0A []"
    by (elim conjE impE)
  ultimately show ?thesis using a x by simp
qed

lemma not_isChinese: "hasJapanese t \<Longrightarrow> \<not> isChinese t"
  by (simp add: isChinese_def)

text \<open>
  C5. A line whose trimmed text has a Hiragana or Katakana character and a CJK
  ideograph is emitted with the Japanese flag, and it is not Chinese: this holds of
  every element of the output, and every such line of the input is in the output.
\<close>

theorem parseLRC_kana_wins:
  "(\<forall>x \<in> set (lines_of (parseLRC intl s)).
      hasJapanese (text' x) \<and> hasChineseChars (text' x) \<longrightarrow>
      isJapanese x \<and> \<not> isChinese (text' x)) \<and>
   (\<forall>l m. l \<in> set (split_on 0x0A s) \<and> timeRegex_exec l = Some m \<and>
      hasJapanese (trim (replace_timeRegex l)) \<and> hasChineseChars (trim (replace_timeRegex l)) \<longrightarrow>
      (\<exists>x \<in> set (lines_of (parseLRC intl s)).
         time x = match_time m \<and> text' x = trim (replace_timeRegex l) \<and> isJapanese x))"
proof (intro conjI ballI allI impI)
  fix x
  assume x: "x \<in> set (lines_of (parseLRC intl s))"
    and h: "hasJapanese (text' x) \<and> hasChineseChars (text' x)"
  have "isJapanese x = hasJapanese (text' x)" using emitted_origin [OF x] by blast
  then show "isJapanese x" using h by simp
  show "\<not> isChinese (text' x)" using h by (simp add: not_isChinese)
next
  fix l m
  assume h: "l \<in> set (split_on 0x0A s) \<and> timeRegex_exec l = Some m \<and>
      hasJapanese (trim (replace_timeRegex l)) \<and> hasChineseChars (trim (replace_timeRegex l))"
  define t where "t = trim (replace_timeRegex l)"
  obtain ws ds where tok: "tokenize intl t = Inr (ws, ds)" using tokenize_total by blast
  have "t \<noteq> []" using h by (simp add: t_def hasJapanese_nonempty)
  then have "\<lparr>time = match_time m, text' = t, words = ws, isJapanese = hasJapanese t\<rparr>
      \<in> set (lines_of (parseLRC intl s))"
    using emitted_line [of l s m intl ws ds] h tok by (simp add: t_def)
  moreover have "hasJapanese t" using h by (simp add: t_def)
  ultimately show "\<exists>x \<in> set (lines_of (parseLRC intl s)).
         time x = match_time m \<and> text' x = trim (replace_timeRegex l) \<and> isJapanese x"
    unfolding t_def by force
qed

lemma parseLRC_kanji_kana_example:
  "parseLRC None (js_str ''[00:01]'' @ [0x65E5, 0x672C, 0x306E]) =
     Inr ([\<lparr>time = 1, text' = [0x65E5, 0x672C, 0x306E], words = [[0x65E5], [0x672C], [0x306E]],
            isJapanese = True\<rparr>], [])"
  by (simp add: parseLRC_single eval_simps del: split_ws.simps(2) split_on.simps(2))

theorem parseLRC_kana_wins_witness:
  "\<lparr>time = 1, text' = [0x65E5, 0x672C, 0x306E], words = [[0x65E5], [0x672C], [0x306E]],
     isJapanese = True\<rparr>
     \<in> set (lines_of (parseLRC None (js_str ''[00:01]'' @ [0x65E5, 0x672C, 0x306E]))) \<and>
   hasJapanese [0x65E5, 0x672C, 0x306E] \<and> hasChineseChars [0x65E5, 0x672C, 0x306E] \<and>
   \<not> isChinese [0x65E5, 0x672C, 0x306E]"
proof -
  let ?x = "\<lparr>time = 1, text' = [0x65E5, 0x672C, 0x306E], words = [[0x65E5], [0x672C], [0x306E]],
     isJapanese = True\<rparr>"
  let ?s = "js_str ''[00:01]'' @ [0x65E5, 0x672C, 0x306E]"
  have x: "?x \<in> set (lines_of (parseLRC None ?s))"
    unfolding parseLRC_kanji_kana_example by (simp add: lines_of_def)
  have j: "hasJapanese (text' ?x) \<and> hasChineseChars (text' ?x)"
    by (simp add: hasJapanese_def hasChineseChars_def is_kana_def is_cjk_def)
  have "isJapanese ?x \<and> \<not> isChinese (text' ?x)"
    using parseLRC_kana_wins [of None ?s, THEN conjunct1, THEN bspec, OF x] j by (rule mp)
  then show ?thesis using x j by simp
qed

text \<open>
  C6. An emitted line whose text has a CJK ideograph and no Hiragana or Katakana
  character has no words.
\<close>

theorem parseLRC_chinese_no_words:
  "\<forall>x \<in> set (lines_of (parseLRC intl s)).
      hasChineseChars (text' x) \<and> \<not> hasJapanese (text' x) \<longrightarrow> words x = []"
proof (intro ballI impI)
  fix x
  assume x: "x \<in> set (lines_of (parseLRC intl s))"
    and h: "hasChineseChars (text' x) \<and> \<not> hasJapanese (text' x)"
  obtain ds where "tokenize intl (text' x) = Inr (words x, ds)"
    using emitted_origin [OF x] by blast
  then show "words x = []" using h by (simp add: tokenize_def isChinese_def)
qed

lemma parseLRC_chinese_example:
  "parseLRC None (js_str ''[00:02.50]'' @ [0x4F60, 0x597D, 0x4E16, 0x754C]) =
     Inr ([\<lparr>time = 5 / 2, text' = [0x4F60, 0x597D, 0x4E16, 0x754C], words = [],
            isJapanese = False\<rparr>], [])"
  by (simp add: parseLRC_single eval_simps del: split_ws.simps(2) split_on.simps(2))

theorem parseLRC_chinese_no_words_witness:
  "\<lparr>time = 5 / 2, text' = [0x4F60, 0x597D, 0x4E16, 0x754C], words = [], isJapanese = False\<rparr>
     \<in> set (lines_of (parseLRC None (js_str ''[00:02.50]'' @ [0x4F60, 0x597D, 0x4E16, 0x754C]))) \<and>
   hasChineseChars [0x4F60, 0x597D, 0x4E16, 0x754C] \<and> \<not> hasJapanese [0x4F60, 0x597D, 0x4E16, 0x754C]"
proof -
  let ?x = "\<lparr>time = 5 / 2, text' = [0x4F60, 0x597D, 0x4E16, 0x754C], words = [], isJapanese = False\<rparr>"
  let ?s = "js_str ''[00:02.50]'' @ [0x4F60, 0x597D, 0x4E16, 0x754C]"
  have x: "?x \<in> set (lines_of (parseLRC None ?s))"
    unfolding parseLRC_chinese_example by (simp add: lines_of_def)
  have c: "hasChineseChars (text' ?x) \<and> \<not> hasJapanese (text' ?x)"
    by (simp add: hasJapanese_def hasChineseChars_def is_kana_def is_cjk_def)
  have "words ?x = []"
    using parseLRC_chinese_no_words [of None ?s, THEN bspec, OF x] c by (rule mp)
  then show ?thesis using x c by simp
qed

lemma emitted_text_ends:
  assumes "x \<in> set (lines_of (parseLRC intl s))"
  shows "text' x \<noteq> [] \<and> \<not> is_ws (hd (text' x)) \<and> \<not> is_ws (last (text' x))"
proof -
  obtain l where t: "text' x = trim (replace_timeRegex l)" and ne: "text' x \<noteq> []"
    using emitted_origin [OF assms] by blast
  then show ?thesis using trim_ends [of "replace_timeRegex l"] by simp
qed

lemma emitted_words_latin:
  assumes "x \<in> set (lines_of (parseLRC intl s))" and "\<not> hasJapanese (text' x)"
    and "w \<in> set (words x)"
  shows "w \<noteq> [] \<and> (\<forall>c \<in> set w. \<not> is_ws c) \<and> words x = split_ws (text' x)"
proof -
  obtain ds where tok: "tokenize intl (text' x) = Inr (words x, ds)"
    using emitted_origin [OF assms(1)] by blast
  have ws: "words x = split_ws (text' x)"
    using tok assms(2,3) by (auto simp: tokenize_def split: if_splits)
  have "w \<noteq> []"
    using split_ws_words [of "text' x" w] emitted_text_ends [OF assms(1)] assms(3) ws by simp
  moreover have "\<forall>c \<in> set w. \<not> is_ws c"
    using split_ws_no_ws [of w "text' x"] assms(3) ws by simp
  ultimately show ?thesis using ws by simp
qed

lemma not_is_blank: "w \<noteq> [] \<Longrightarrow> \<forall>c \<in> set w. \<not> is_ws c \<Longrightarrow> \<not> is_blank w"
  by (cases w) (auto simp: is_blank_def)

text \<open>
  C8, as the code has it. In a line of the output that is not classified Japanese no
  word is empty and no word has a whitespace character. In a line classified Japanese,
  when the runtime has no segmenter or the segmenter throws, the words are the
  characters of the text, one each, so a whitespace character inside the text is a word
  of its own; when the segmenter returns, the words are its word-like segments as it
  gives them.
\<close>

theorem parseLRC_words:
  "\<forall>x \<in> set (lines_of (parseLRC intl s)).
     (\<not> hasJapanese (text' x) \<longrightarrow>
        (\<forall>w \<in> set (words x). w \<noteq> [] \<and> \<not> is_blank w \<and> (\<forall>c \<in> set w. \<not> is_ws c))) \<and>
     (hasJapanese (text' x) \<and>
        (intl = None \<or> (\<exists>segmenter e. intl = Some segmenter \<and> segmenter (text' x) = Inl e)) \<longrightarrow>
        words x = split_chars (text' x) \<and> (\<forall>w \<in> set (words x). length w = 1)) \<and>
     (\<forall>segmenter segments.
        hasJapanese (text' x) \<and> intl = Some segmenter \<and> segmenter (text' x) = Inr segments \<longrightarrow>
        words x = map segment (filter isWordLike segments))"
proof (rule ballI, intro conjI)
  fix x
  assume x: "x \<in> set (lines_of (parseLRC intl s))"
  obtain ds where tok: "tokenize intl (text' x) = Inr (words x, ds)"
    using emitted_origin [OF x] by blast
  show "\<not> hasJapanese (text' x) \<longrightarrow>
        (\<forall>w \<in> set (words x). w \<noteq> [] \<and> \<not> is_blank w \<and> (\<forall>c \<in> set w. \<not> is_ws c))"
  proof (intro impI ballI)
    fix w
    assume j: "\<not> hasJapanese (text' x)" and w: "w \<in> set (words x)"
    have r: "w \<noteq> [] \<and> (\<forall>c \<in> set w. \<not> is_ws c)" using emitted_words_latin [OF x j w] by simp
    then show "w \<noteq> [] \<and> \<not> is_blank w \<and> (\<forall>c \<in> set w. \<not> is_ws c)"
      by (simp add: not_is_blank)
  qed
  show "hasJapanese (text' x) \<and>
        (intl = None \<or> (\<exists>segmenter e. intl = Some segmenter \<and> segmenter (text' x) = Inl e)) \<longrightarrow>
        words x = split_chars (text' x) \<and> (\<forall>w \<in> set (words x). length w = 1)"
  proof
    assume h: "hasJapanese (text' x) \<and>
        (intl = None \<or> (\<exists>segmenter e. intl = Some segmenter \<and> segmenter (text' x) = Inl e))"
    have ws: "words x = split_chars (text' x)"
      using tok h by (auto simp: tokenize_def segment_words_def)
    then show "words x = split_chars (text' x) \<and> (\<forall>w \<in> set (words x). length w = 1)"
      by (auto simp: split_chars_def)
  qed
  show "\<forall>segmenter segments.
        hasJapanese (text' x) \<and> intl = Some segmenter \<and> segmenter (text' x) = Inr segments \<longrightarrow>
        words x = map segment (filter isWordLike segments)"
    using tok by (auto simp: tokenize_def segment_words_def)
qed

text \<open>
  The claim as it is written fails on the fallback: with no segmenter in the runtime, the
  space between two kana is a word of the emitted line.
\<close>

theorem parseLRC_fallback_space:
  "parseLRC None (js_str ''[00:01]'' @ [0x3042, 0x20, 0x3044]) =
     Inr ([\<lparr>time = 1, text' = [0x3042, 0x20, 0x3044], words = [[0x3042], [0x20], [0x3044]],
            isJapanese = True\<rparr>], []) \<and>
   is_blank [0x20]"
  by (simp add: parseLRC_single eval_simps is_blank_def del: split_ws.simps(2) split_on.simps(2))

lemma compare_values: "js_sub 1 2 \<le> 0" "\<not> js_sub 2 1 \<le> 0"
  by code_simp+

lemma parseLRC_kana_space_example:
  "parseLRC None (js_str ''[00:01]'' @ [0x3042, 0x20, 0x3044] @ [0x0A] @ js_str ''[00:02]a b'') =
     Inr ([\<lparr>time = 1, text' = [0x3042, 0x20, 0x3044], words = [[0x3042], [0x20], [0x3044]],
            isJapanese = True\<rparr>,
           \<lparr>time = 2, text' = js_str ''a b'', words = [js_str ''a'', js_str ''b''],
            isJapanese = False\<rparr>], [])"
  apply (simp add: parseLRC_emit eval_simps del: split_ws.simps(2) split_on.simps(2))
  apply (simp add: js_sort_def compare_time_def compare_values)
  done

lemma parseLRC_segmented_example:
  "parseLRC (Some two_segments) (js_str ''[00:01]'' @ [0x3042, 0x20, 0x3044]) =
     Inr ([\<lparr>time = 1, text' = [0x3042, 0x20, 0x3044], words = [[0x3042]], isJapanese = True\<rparr>], [])"
  by (simp add: parseLRC_single eval_simps two_segments_def del: split_ws.simps(2) split_on.simps(2))

theorem parseLRC_words_witness:
  "\<lparr>time = 2, text' = js_str ''a b'', words = [js_str ''a'', js_str ''b''], isJapanese = False\<rparr>
     \<in> set (lines_of (parseLRC None
          (js_str ''[00:01]'' @ [0x3042, 0x20, 0x3044] @ [0x0A] @ js_str ''[00:02]a b''))) \<and>
   \<not> hasJapanese (js_str ''a b'') \<and>
   js_str ''a'' \<noteq> [] \<and> \<not> is_blank (js_str ''a'') \<and> js_str ''b'' \<noteq> [] \<and> \<not> is_blank (js_str ''b'') \<and>
   \<lparr>time = 1, text' = [0x3042, 0x20, 0x3044], words = [[0x3042], [0x20], [0x3044]], isJapanese = True\<rparr>
     \<in> set (lines_of (parseLRC None
          (js_str ''[00:01]'' @ [0x3042, 0x20, 0x3044] @ [0x0A] @ js_str ''[00:02]a b''))) \<and>
   hasJapanese [0x3042, 0x20, 0x3044] \<and>
   split_chars [0x3042, 0x20, 0x3044] = [[0x3042], [0x20], [0x3044]] \<and>
   \<lparr>time = 1, text' = [0x3042, 0x20, 0x3044], words = [[0x3042]], isJapanese = True\<rparr>
     \<in> set (lines_of (parseLRC (Some two_segments) (js_str ''[00:01]'' @ [0x3042, 0x20, 0x3044]))) \<and>
   two_segments [0x3042, 0x20, 0x3044] =
     Inr [\<lparr>segment = [0x3042], isWordLike = True\<rparr>, \<lparr>segment = [0x20, 0x3044], isWordLike = False\<rparr>] \<and>
   map segment (filter isWordLike
     [\<lparr>segment = [0x3042], isWordLike = True\<rparr>, \<lparr>segment = [0x20, 0x3044], isWordLike = False\<rparr>]) =
     [[0x3042]]"
proof -
  let ?s = "js_str ''[00:01]'' @ [0x3042, 0x20, 0x3044] @ [0x0A] @ js_str ''[00:02]a b''"
  let ?a = "\<lparr>time = 2, text' = js_str ''a b'', words = [js_str ''a'', js_str ''b''], isJapanese = False\<rparr>"
  let ?k = "\<lparr>time = 1, text' = [0x3042, 0x20, 0x3044], words = [[0x3042], [0x20], [0x3044]],
             isJapanese = True\<rparr>"
  let ?g = "\<lparr>time = 1, text' = [0x3042, 0x20, 0x3044], words = [[0x3042]], isJapanese = True\<rparr>"
  let ?segs = "[\<lparr>segment = [0x3042], isWordLike = True\<rparr>, \<lparr>segment = [0x20, 0x3044], isWordLike = False\<rparr>]"
  have a: "?a \<in> set (lines_of (parseLRC None ?s))" and k: "?k \<in> set (lines_of (parseLRC None ?s))"
    unfolding parseLRC_kana_space_example by (simp_all add: lines_of_def)
  have g: "?g \<in> set (lines_of (parseLRC (Some two_segments) (js_str ''[00:01]'' @ [0x3042, 0x20, 0x3044])))"
    unfolding parseLRC_segmented_example by (simp add: lines_of_def)
  have nj': "\<not> hasJapanese (js_str ''a b'')"
    by (simp add: hasJapanese_def js_str_def is_kana_def)
  then have nj: "\<not> hasJapanese (text' ?a)"
    by simp
  have j: "hasJapanese [0x3042, 0x20, 0x3044]"
    by (simp add: hasJapanese_def is_kana_def)
  have segs: "two_segments [0x3042, 0x20, 0x3044] = Inr ?segs"
    by (simp add: two_segments_def)
  have "\<forall>w \<in> set (words ?a). w \<noteq> [] \<and> \<not> is_blank w \<and> (\<forall>c \<in> set w. \<not> is_ws c)"
    using parseLRC_words [of None ?s, THEN bspec, OF a, THEN conjunct1] nj by (rule mp)
  then have 1: "js_str ''a'' \<noteq> [] \<and> \<not> is_blank (js_str ''a'') \<and> js_str ''b'' \<noteq> [] \<and> \<not> is_blank (js_str ''b'')"
    by simp
  have "words ?k = split_chars (text' ?k) \<and> (\<forall>w \<in> set (words ?k). length w = 1)"
  proof (rule parseLRC_words [of None ?s, THEN bspec, OF k, THEN conjunct2, THEN conjunct1, THEN mp])
    show "hasJapanese (text' ?k) \<and>
        ((None :: Segmenter option) = None \<or>
         (\<exists>segmenter e. (None :: Segmenter option) = Some segmenter \<and> segmenter (text' ?k) = Inl e))"
      using j by simp
  qed
  then have 2: "split_chars [0x3042, 0x20, 0x3044] = [[0x3042], [0x20], [0x3044]]"
    by simp
  have "words ?g = map segment (filter isWordLike ?segs)"
  proof (rule parseLRC_words [of "Some two_segments" "js_str ''[00:01]'' @ [0x3042, 0x20, 0x3044]",
        THEN bspec, OF g, THEN conjunct2, THEN conjunct2, THEN spec, THEN spec, THEN mp,
        of two_segments ?segs])
    show "hasJapanese (text' ?g) \<and> Some two_segments = Some two_segments \<and>
        two_segments (text' ?g) = Inr ?segs"
      using j segs by simp
  qed
  then have 3: "map segment (filter isWordLike ?segs) = [[0x3042]]"
    by simp
  show ?thesis using a k g nj' j segs 1 2 3 by (intro conjI) blast+
qed

lemma split_chars_nonempty: "t \<noteq> [] \<Longrightarrow> split_chars t \<noteq> []"
  by (simp add: split_chars_def)

text \<open>
  C10. An emitted line whose text has no Hiragana or Katakana character and no CJK
  ideograph has at least one word, and none of its words is empty. A line is emitted
  without words only when it is Chinese, or when it is Japanese and the segmenter
  returns no word-like segment.
\<close>

theorem parseLRC_latin_has_words:
  "\<forall>x \<in> set (lines_of (parseLRC intl s)).
     (\<not> hasJapanese (text' x) \<and> \<not> hasChineseChars (text' x) \<longrightarrow>
        words x \<noteq> [] \<and> (\<forall>w \<in> set (words x). w \<noteq> [])) \<and>
     (words x = [] \<longrightarrow>
        isChinese (text' x) \<or>
        (\<exists>segmenter segments. hasJapanese (text' x) \<and> intl = Some segmenter \<and>
           segmenter (text' x) = Inr segments \<and> filter isWordLike segments = []))"
proof (rule ballI, intro conjI)
  fix x
  assume x: "x \<in> set (lines_of (parseLRC intl s))"
  obtain ds where tok: "tokenize intl (text' x) = Inr (words x, ds)" and ne: "text' x \<noteq> []"
    using emitted_origin [OF x] by blast
  show "\<not> hasJapanese (text' x) \<and> \<not> hasChineseChars (text' x) \<longrightarrow>
        words x \<noteq> [] \<and> (\<forall>w \<in> set (words x). w \<noteq> [])"
  proof
    assume h: "\<not> hasJapanese (text' x) \<and> \<not> hasChineseChars (text' x)"
    then have "words x = split_ws (text' x)"
      using tok by (simp add: tokenize_def isChinese_def)
    then have "words x \<noteq> []" by (simp add: split_ws_nonempty)
    moreover have "\<forall>w \<in> set (words x). w \<noteq> []"
      using emitted_words_latin [OF x] h by blast
    ultimately show "words x \<noteq> [] \<and> (\<forall>w \<in> set (words x). w \<noteq> [])" by simp
  qed
  show "words x = [] \<longrightarrow>
        isChinese (text' x) \<or>
        (\<exists>segmenter segments. hasJapanese (text' x) \<and> intl = Some segmenter \<and>
           segmenter (text' x) = Inr segments \<and> filter isWordLike segments = [])"
  proof
    assume e: "words x = []"
    show "isChinese (text' x) \<or>
        (\<exists>segmenter segments. hasJapanese (text' x) \<and> intl = Some segmenter \<and>
           segmenter (text' x) = Inr segments \<and> filter isWordLike segments = [])"
    proof (cases "hasJapanese (text' x)")
      case False
      then show ?thesis
        using tok e split_ws_nonempty [of "text' x"]
        by (auto simp: tokenize_def split: if_splits)
    next
      case True
      show ?thesis
      proof (cases intl)
        case None
        then show ?thesis
          using tok e True split_chars_nonempty [OF ne] by (simp add: tokenize_def)
      next
        case (Some segmenter)
        show ?thesis
        proof (cases "segmenter (text' x)")
          case (Inl err)
          then show ?thesis
            using tok e True Some split_chars_nonempty [OF ne]
            by (simp add: tokenize_def segment_words_def)
        next
          case (Inr segments)
          then have "words x = map segment (filter isWordLike segments)"
            using tok True Some by (simp add: tokenize_def segment_words_def)
          then have "filter isWordLike segments = []" using e by simp
          then show ?thesis using True Some Inr by blast
        qed
      qed
    qed
  qed
qed

lemma parseLRC_latin_chinese_example:
  "parseLRC None (js_str ''[00:01]a b'' @ [0x0A] @ js_str ''[00:02]'' @ [0x4F60, 0x597D]) =
     Inr ([\<lparr>time = 1, text' = js_str ''a b'', words = [js_str ''a'', js_str ''b''],
            isJapanese = False\<rparr>,
           \<lparr>time = 2, text' = [0x4F60, 0x597D], words = [], isJapanese = False\<rparr>], [])"
  apply (simp add: parseLRC_emit eval_simps del: split_ws.simps(2) split_on.simps(2))
  apply (simp add: js_sort_def compare_time_def compare_values)
  done

theorem parseLRC_latin_has_words_witness:
  "\<lparr>time = 1, text' = js_str ''a b'', words = [js_str ''a'', js_str ''b''], isJapanese = False\<rparr>
     \<in> set (lines_of (parseLRC None
          (js_str ''[00:01]a b'' @ [0x0A] @ js_str ''[00:02]'' @ [0x4F60, 0x597D]))) \<and>
   \<not> hasJapanese (js_str ''a b'') \<and> \<not> hasChineseChars (js_str ''a b'') \<and>
   [js_str ''a'', js_str ''b''] \<noteq> [] \<and> js_str ''a'' \<noteq> [] \<and> js_str ''b'' \<noteq> [] \<and>
   \<lparr>time = 2, text' = [0x4F60, 0x597D], words = [], isJapanese = False\<rparr>
     \<in> set (lines_of (parseLRC None
          (js_str ''[00:01]a b'' @ [0x0A] @ js_str ''[00:02]'' @ [0x4F60, 0x597D]))) \<and>
   isChinese [0x4F60, 0x597D]"
proof -
  let ?s = "js_str ''[00:01]a b'' @ [0x0A] @ js_str ''[00:02]'' @ [0x4F60, 0x597D]"
  let ?a = "\<lparr>time = 1, text' = js_str ''a b'', words = [js_str ''a'', js_str ''b''], isJapanese = False\<rparr>"
  let ?c = "\<lparr>time = 2, text' = [0x4F60, 0x597D], words = [], isJapanese = False\<rparr>"
  have a: "?a \<in> set (lines_of (parseLRC None ?s))" and c: "?c \<in> set (lines_of (parseLRC None ?s))"
    unfolding parseLRC_latin_chinese_example by (simp_all add: lines_of_def)
  have l: "\<not> hasJapanese (js_str ''a b'') \<and> \<not> hasChineseChars (js_str ''a b'')"
    by (simp add: hasJapanese_def hasChineseChars_def js_str_def is_kana_def is_cjk_def)
  have "words ?a \<noteq> [] \<and> (\<forall>w \<in> set (words ?a). w \<noteq> [])"
  proof (rule parseLRC_latin_has_words [of None ?s, THEN bspec, OF a, THEN conjunct1, THEN mp])
    show "\<not> hasJapanese (text' ?a) \<and> \<not> hasChineseChars (text' ?a)" using l by simp
  qed
  then have 1: "[js_str ''a'', js_str ''b''] \<noteq> [] \<and> js_str ''a'' \<noteq> [] \<and> js_str ''b'' \<noteq> []"
    by simp
  have "isChinese (text' ?c) \<or>
        (\<exists>segmenter segments. hasJapanese (text' ?c) \<and> (None :: Segmenter option) = Some segmenter \<and>
           segmenter (text' ?c) = Inr segments \<and> filter isWordLike segments = [])"
  proof (rule parseLRC_latin_has_words [of None ?s, THEN bspec, OF c, THEN conjunct2, THEN mp])
    show "words ?c = []" by simp
  qed
  then have 2: "isChinese [0x4F60, 0x597D]" by simp
  show ?thesis using a c l 1 2 by (intro conjI) blast+
qed

end
